theory Spec2Isabelle
  imports Main "HOL-Library.Word" "HOL-Library.Product_Lexorder"
begin

section \<open>The graph of \<^verbatim>\<open>graph_list.cpp\<close>\<close>

text \<open>
  \<^verbatim>\<open>template<typename T> class Grafo\<close> keeps two parallel vectors of vectors:
  \<^verbatim>\<open>adjacency_list[v]\<close> holds the neighbours of \<open>v\<close> and \<^verbatim>\<open>weights[v]\<close> the weight of the
  edge at the same position. \<open>T\<close> is an unsigned integer type (the \<^verbatim>\<open>static_assert\<close>): the
  type parameter \<open>'t\<close> of the record, which every operation takes at a word of
  \<open>LENGTH('a)\<close> bits, whose arithmetic wraps around; \<^verbatim>\<open>main\<close> uses \<^verbatim>\<open>size_t\<close>, a
  \<open>64 word\<close>. A node id indexes a vector through \<open>unat\<close>.
\<close>

record 't Grafo =
  adjacency_list :: "'t list list"
  weights :: "'t list list"

text \<open>
  \<^verbatim>\<open>operator[]\<close> of \<^verbatim>\<open>std::vector\<close> outside the vector is undefined behaviour. The
  model makes every such access the value \<open>OutOfBounds\<close>; the source has no other failure.
\<close>

datatype error = OutOfBounds

text \<open>\<^verbatim>\<open>numeric_limits<T>::max()\<close>: all bits set.\<close>

definition T_max :: "'a::len word" where
  "T_max = - 1"

text \<open>The constructor \<^verbatim>\<open>Grafo(n)\<close>: both vectors resized to \<open>n\<close> empty vectors.\<close>

definition Grafo :: "nat \<Rightarrow> 'a::len word Grafo" where
  "Grafo n = \<lparr>adjacency_list = replicate n [], weights = replicate n []\<rparr>"

text \<open>
  \<^verbatim>\<open>add_edge(from, to, weight)\<close>: four \<^verbatim>\<open>push_back\<close>s, on \<^verbatim>\<open>adjacency_list[from]\<close>,
  \<^verbatim>\<open>adjacency_list[to]\<close>, \<^verbatim>\<open>weights[from]\<close> and \<^verbatim>\<open>weights[to]\<close>, in this order. No
  argument is checked.
\<close>

definition add_edge :: "'a::len word Grafo \<Rightarrow> 'a word \<Rightarrow> 'a word \<Rightarrow> 'a word \<Rightarrow> error + 'a word Grafo" where
  "add_edge g from to weight =
     (let adj = adjacency_list g; ws = weights g in
      if unat from < length adj \<and> unat to < length adj \<and>
         unat from < length ws \<and> unat to < length ws
      then
        let adj1 = adj[unat from := adj ! unat from @ [to]];
            adj2 = adj1[unat to := adj1 ! unat to @ [from]];
            ws1 = ws[unat from := ws ! unat from @ [weight]];
            ws2 = ws1[unat to := ws1 ! unat to @ [weight]]
        in Inr \<lparr>adjacency_list = adj2, weights = ws2\<rparr>
      else Inl OutOfBounds)"

text \<open>A sequence of \<^verbatim>\<open>add_edge\<close> calls, as in \<^verbatim>\<open>main\<close>; it stops at the first failure.\<close>

fun add_edges :: "'a::len word Grafo \<Rightarrow> ('a word \<times> 'a word \<times> 'a word) list \<Rightarrow> error + 'a word Grafo" where
  "add_edges g [] = Inr g"
| "add_edges g ((from, to, weight) # es) =
     (case add_edge g from to weight of
        Inl e \<Rightarrow> Inl e
      | Inr g' \<Rightarrow> add_edges g' es)"

section \<open>Depth-first and breadth-first search\<close>

text \<open>
  \<^verbatim>\<open>DFS\<close> and \<^verbatim>\<open>BFS\<close> are the same text in the source but for the container
  \<^verbatim>\<open>to_visit\<close>: a \<^verbatim>\<open>stack\<close> (\<^verbatim>\<open>push\<close> and \<^verbatim>\<open>top\<close> at the same end) or a \<^verbatim>\<open>queue\<close>
  (\<^verbatim>\<open>push\<close> at the back, \<^verbatim>\<open>front\<close> at the other end). The model has the loop once, with
  the \<^verbatim>\<open>push\<close> of the container as a parameter; the next element to take is the head of
  the list in both.
\<close>

definition stack_push :: "'a \<Rightarrow> 'a list \<Rightarrow> 'a list" where
  "stack_push n to_visit = n # to_visit"

definition queue_push :: "'a \<Rightarrow> 'a list \<Rightarrow> 'a list" where
  "queue_push n to_visit = to_visit @ [n]"

text \<open>
  The inner loop \<^verbatim>\<open>for(auto& n : adjacency_list[current]) if(!visited[n]) {...}\<close>:
  a neighbour that is not visited is pushed and gets \<open>current\<close> as its predecessor.
\<close>

fun visit_adjacent ::
  "('a word \<Rightarrow> 'a word list \<Rightarrow> 'a word list) \<Rightarrow> 'a::len word \<Rightarrow> 'a word list \<Rightarrow> bool list \<Rightarrow>
   'a word list \<Rightarrow> 'a word list \<Rightarrow> error + ('a word list \<times> 'a word list)" where
  "visit_adjacent push current [] visited path to_visit = Inr (path, to_visit)"
| "visit_adjacent push current (n # ns) visited path to_visit =
     (if unat n < length visited then
        if \<not> visited ! unat n then
          if unat n < length path then
            visit_adjacent push current ns visited (path[unat n := current]) (push n to_visit)
          else Inl OutOfBounds
        else visit_adjacent push current ns visited path to_visit
      else Inl OutOfBounds)"

text \<open>
  The loop \<^verbatim>\<open>while(!to_visit.empty())\<close>. It returns the predecessor vector \<open>path\<close>, the
  only variable read after the loop.
\<close>

partial_function (option) search_loop ::
  "('a word \<Rightarrow> 'a word list \<Rightarrow> 'a word list) \<Rightarrow> 'a::len word list list \<Rightarrow> 'a word \<Rightarrow>
   'a word list \<Rightarrow> bool list \<Rightarrow> 'a word list \<Rightarrow> (error + 'a word list) option" where
  "search_loop push adj dst path visited to_visit =
     (case to_visit of
        [] \<Rightarrow> Some (Inr path)
      | current # rest \<Rightarrow>
          if current = dst then Some (Inr path)
          else if \<not> unat current < length visited then Some (Inl OutOfBounds)
          else if visited ! unat current then search_loop push adj dst path visited rest
          else if \<not> unat current < length adj then Some (Inl OutOfBounds)
          else
            (case visit_adjacent push current (adj ! unat current)
                    (visited[unat current := True]) path rest of
               Inl e \<Rightarrow> Some (Inl e)
             | Inr (path', to_visit') \<Rightarrow>
                 search_loop push adj dst path' (visited[unat current := True]) to_visit'))"

text \<open>
  The loop \<^verbatim>\<open>for(T node = dst; node != src; node = path[node])\<close> with the final insertion
  of \<open>src\<close>. Each node is inserted at the front. The loop does not return when the
  predecessors never lead to \<open>src\<close>: the value is then \<open>None\<close>.
\<close>

partial_function (option) reconstruct ::
  "'a::len word list \<Rightarrow> 'a word \<Rightarrow> 'a word \<Rightarrow> 'a word list \<Rightarrow> (error + 'a word list) option" where
  "reconstruct path src node reconstructed_path =
     (if node \<noteq> src then
        if unat node < length path then
          reconstruct path src (path ! unat node) (node # reconstructed_path)
        else Some (Inl OutOfBounds)
      else Some (Inr (src # reconstructed_path)))"

declare search_loop.simps [code]
declare reconstruct.simps [code]

definition search ::
  "('a word \<Rightarrow> 'a word list \<Rightarrow> 'a word list) \<Rightarrow> 'a::len word Grafo \<Rightarrow> 'a word \<Rightarrow> 'a word \<Rightarrow>
   (error + 'a word list) option" where
  "search push g src dst =
     (let n = length (adjacency_list g) in
      case search_loop push (adjacency_list g) dst (replicate n T_max) (replicate n False) [src] of
        None \<Rightarrow> None
      | Some (Inl e) \<Rightarrow> Some (Inl e)
      | Some (Inr path) \<Rightarrow> reconstruct path src dst [])"

definition DFS :: "'a::len word Grafo \<Rightarrow> 'a word \<Rightarrow> 'a word \<Rightarrow> (error + 'a word list) option" where
  "DFS g src dst = search stack_push g src dst"

definition BFS :: "'a::len word Grafo \<Rightarrow> 'a word \<Rightarrow> 'a word \<Rightarrow> (error + 'a word list) option" where
  "BFS g src dst = search queue_push g src dst"

section \<open>Dijkstra\<close>

text \<open>
  The priority queue holds pairs (cost, node) and \<^verbatim>\<open>greater<pair<T, T>>\<close> makes \<^verbatim>\<open>top\<close>
  the least pair in the lexicographic order. It is a list here, read as a multiset:
  \<^verbatim>\<open>top\<close> is \<open>Min\<close> of its elements and \<^verbatim>\<open>pop\<close> removes one occurrence of it.

  The inner loop \<^verbatim>\<open>for(size_t i = 0; i < adjacency_list[current_node].size(); i++)\<close> reads
  \<^verbatim>\<open>adjacency_list[current_node][i]\<close> and \<^verbatim>\<open>weights[current_node][i]\<close>: the two vectors
  are walked together.

  In the test \<^verbatim>\<open>costs[current_node] + adjacent_cost < costs[adjacent_node]\<close> the operands
  undergo the integral promotions of C++. For \<open>T\<close> at least as wide as \<^verbatim>\<open>int\<close> (such as
  the \<^verbatim>\<open>size_t\<close> of \<^verbatim>\<open>main\<close>) the sum is a sum of \<open>T\<close>: it wraps around. For \<open>T\<close>
  narrower than \<^verbatim>\<open>int\<close> both sides are converted to \<^verbatim>\<open>int\<close>, which holds the exact sum,
  so that the comparison is the one of the natural numbers. \<open>int_width\<close> is the width of
  \<^verbatim>\<open>int\<close>, 32 bits on the platforms where \<^verbatim>\<open>size_t\<close> has 64. The assignment
  \<^verbatim>\<open>costs[adjacent_node] = costs[current_node] + adjacent_cost\<close> converts the sum back to
  \<open>T\<close>, modulo \<open>2 ^ w\<close>: it is the sum of \<open>T\<close> at every width.
\<close>

definition int_width :: nat where
  "int_width = 32"

definition cost_less :: "'a::len word \<Rightarrow> 'a word \<Rightarrow> 'a word \<Rightarrow> bool" where
  "cost_less current_cost adjacent_cost old_cost \<longleftrightarrow>
     (if LENGTH('a) < int_width then unat current_cost + unat adjacent_cost < unat old_cost
      else current_cost + adjacent_cost < old_cost)"

fun relax ::
  "'a::len word \<Rightarrow> 'a word list \<Rightarrow> 'a word list \<Rightarrow> 'a word list \<Rightarrow> ('a word \<times> 'a word) list \<Rightarrow>
   'a word list \<Rightarrow> error + ('a word list \<times> ('a word \<times> 'a word) list \<times> 'a word list)" where
  "relax current_node [] ws costs priority_queue path = Inr (costs, priority_queue, path)"
| "relax current_node (adjacent_node # ns) [] costs priority_queue path = Inl OutOfBounds"
| "relax current_node (adjacent_node # ns) (adjacent_cost # ws) costs priority_queue path =
     (if unat current_node < length costs \<and> unat adjacent_node < length costs then
        if cost_less (costs ! unat current_node) adjacent_cost (costs ! unat adjacent_node) then
          let costs' = costs[unat adjacent_node := costs ! unat current_node + adjacent_cost] in
          if unat adjacent_node < length path then
            relax current_node ns ws costs'
              ((costs' ! unat adjacent_node, adjacent_node) # priority_queue)
              (path[unat adjacent_node := current_node])
          else Inl OutOfBounds
        else relax current_node ns ws costs priority_queue path
      else Inl OutOfBounds)"

text \<open>
  The loop \<^verbatim>\<open>while(!priority_queue.empty())\<close>. The node is marked visited before the
  test \<^verbatim>\<open>current_cost != costs[current_node]\<close>, as in the source. It returns \<open>path\<close>
  and \<open>costs\<close>, the variables read after the loop.
\<close>

partial_function (option) dijkstra_loop ::
  "'a::len word Grafo \<Rightarrow> 'a word \<Rightarrow> 'a word list \<Rightarrow> bool list \<Rightarrow> 'a word list \<Rightarrow>
   ('a word \<times> 'a word) list \<Rightarrow> (error + ('a word list \<times> 'a word list)) option" where
  "dijkstra_loop g dst path visited costs priority_queue =
     (if priority_queue = [] then Some (Inr (path, costs))
      else
        let current_cost = fst (Min (set priority_queue));
            current_node = snd (Min (set priority_queue));
            popped = remove1 (Min (set priority_queue)) priority_queue
        in
          if current_node = dst then Some (Inr (path, costs))
          else if \<not> unat current_node < length visited then Some (Inl OutOfBounds)
          else if visited ! unat current_node then dijkstra_loop g dst path visited costs popped
          else if \<not> unat current_node < length costs then Some (Inl OutOfBounds)
          else if current_cost \<noteq> costs ! unat current_node then
            dijkstra_loop g dst path (visited[unat current_node := True]) costs popped
          else if \<not> (unat current_node < length (adjacency_list g) \<and>
                      unat current_node < length (weights g)) then Some (Inl OutOfBounds)
          else
            (case relax current_node (adjacency_list g ! unat current_node)
                    (weights g ! unat current_node) costs popped path of
               Inl e \<Rightarrow> Some (Inl e)
             | Inr (costs', priority_queue', path') \<Rightarrow>
                 dijkstra_loop g dst path' (visited[unat current_node := True]) costs'
                   priority_queue'))"

declare dijkstra_loop.simps [code]

text \<open>
  \<^verbatim>\<open>dijkstra(src, dst)\<close>: \<open>path\<close> starts as \<open>n\<close> zeros (\<^verbatim>\<open>vector<T> path(n)\<close>), \<open>costs\<close>
  as \<open>n\<close> times the maximum with \<^verbatim>\<open>costs[src] = 0\<close>; the result is
  \<^verbatim>\<open>make_pair(costs[dst], reconstructed_path)\<close>.
\<close>

definition dijkstra ::
  "'a::len word Grafo \<Rightarrow> 'a word \<Rightarrow> 'a word \<Rightarrow> (error + ('a word \<times> 'a word list)) option" where
  "dijkstra g src dst =
     (let n = length (adjacency_list g) in
      if \<not> unat src < n then Some (Inl OutOfBounds)
      else
        case dijkstra_loop g dst (replicate n 0) (replicate n False)
               ((replicate n T_max)[unat src := 0]) [(0, src)] of
          None \<Rightarrow> None
        | Some (Inl e) \<Rightarrow> Some (Inl e)
        | Some (Inr (path, costs)) \<Rightarrow>
            (case reconstruct path src dst [] of
               None \<Rightarrow> None
             | Some (Inl e) \<Rightarrow> Some (Inl e)
             | Some (Inr reconstructed_path) \<Rightarrow>
                 if unat dst < length costs then Some (Inr (costs ! unat dst, reconstructed_path))
                 else Some (Inl OutOfBounds)))"

text \<open>The graph built in \<^verbatim>\<open>main\<close>.\<close>

definition main_edges :: "(64 word \<times> 64 word \<times> 64 word) list" where
  "main_edges =
     [(0, 1, 7), (0, 5, 14), (1, 2, 10), (1, 3, 20), (2, 3, 11), (2, 5, 1), (2, 4, 3), (4, 5, 9)]"

definition main_grafo :: "64 word Grafo" where
  "main_grafo =
     \<lparr>adjacency_list = [[1, 5], [0, 2, 3], [1, 3, 5, 4], [1, 2], [2, 5], [0, 2, 4]],
      weights = [[7, 14], [7, 10, 20], [10, 11, 1, 3], [20, 11], [3, 9], [14, 1, 9]]\<rparr>"


section \<open>Graphs, edges and paths\<close>

definition node_count :: "'a::len word Grafo \<Rightarrow> nat" where
  "node_count g = length (adjacency_list g)"

text \<open>
  The graphs that the constructor and \<^verbatim>\<open>add_edge\<close> build: the two vectors have the same
  shape and every stored neighbour is a node id.
\<close>

definition wf_grafo :: "'a::len word Grafo \<Rightarrow> bool" where
  "wf_grafo g \<longleftrightarrow>
     list_all2 (\<lambda>ns ws. length ns = length ws) (adjacency_list g) (weights g) \<and>
     list_all (list_all (\<lambda>v. unat v < length (adjacency_list g))) (adjacency_list g)"

text \<open>An edge from \<open>u\<close> to \<open>v\<close>, and an edge from \<open>u\<close> to \<open>v\<close> stored with the weight \<open>w\<close>.\<close>

definition has_edge :: "'a::len word Grafo \<Rightarrow> 'a word \<Rightarrow> 'a word \<Rightarrow> bool" where
  "has_edge g u v \<longleftrightarrow>
     unat u < length (adjacency_list g) \<and> v \<in> set (adjacency_list g ! unat u)"

definition has_wedge :: "'a::len word Grafo \<Rightarrow> 'a word \<Rightarrow> 'a word \<Rightarrow> 'a word \<Rightarrow> bool" where
  "has_wedge g u v w \<longleftrightarrow>
     unat u < length (adjacency_list g) \<and> unat u < length (weights g) \<and>
     (v, w) \<in> set (zip (adjacency_list g ! unat u) (weights g ! unat u))"

text \<open>A sequence of nodes in which every two consecutive nodes are joined by an edge.\<close>

fun is_path :: "'a::len word Grafo \<Rightarrow> 'a word list \<Rightarrow> bool" where
  "is_path g [] = True"
| "is_path g [u] = True"
| "is_path g (u # v # p) = (has_edge g u v \<and> is_path g (v # p))"

definition path_between :: "'a::len word Grafo \<Rightarrow> 'a word \<Rightarrow> 'a word \<Rightarrow> 'a word list \<Rightarrow> bool" where
  "path_between g src dst p \<longleftrightarrow> p \<noteq> [] \<and> hd p = src \<and> last p = dst \<and> is_path g p"

definition reachable :: "'a::len word Grafo \<Rightarrow> 'a word \<Rightarrow> 'a word \<Rightarrow> bool" where
  "reachable g src dst \<longleftrightarrow> (\<exists>p. path_between g src dst p)"

text \<open>The graph with the edges 0-1, 0-2 and 1-2, all of weight 1.\<close>

definition triangle :: "64 word Grafo" where
  "triangle = \<lparr>adjacency_list = [[1, 2], [0, 2], [0, 1]], weights = [[1, 1], [1, 1], [1, 1]]\<rparr>"

section \<open>Building a graph\<close>

lemma wf_grafo_nth:
  "wf_grafo g \<Longrightarrow> i < length (adjacency_list g) \<Longrightarrow>
     length (weights g ! i) = length (adjacency_list g ! i) \<and>
     (\<forall>v\<in>set (adjacency_list g ! i). unat v < length (adjacency_list g))"
  by (auto simp: wf_grafo_def list_all2_conv_all_nth list_all_length in_set_conv_nth)

lemma wf_grafo_length: "wf_grafo g \<Longrightarrow> length (weights g) = length (adjacency_list g)"
  by (auto simp: wf_grafo_def dest: list_all2_lengthD)

lemma wf_grafo_Grafo: "wf_grafo (Grafo n)"
  by (simp add: wf_grafo_def Grafo_def list_all2_conv_all_nth list_all_length)

lemma wf_grafo_add_edge:
  assumes "wf_grafo g" "add_edge g a b w = Inr g'"
  shows "wf_grafo g'"
proof -
  let ?adj = "adjacency_list g" and ?ws = "weights g"
  from assms(2) have ab: "unat a < length ?adj" "unat b < length ?adj"
    and adj': "adjacency_list g' = (?adj[unat a := ?adj ! unat a @ [b]])
                 [unat b := (?adj[unat a := ?adj ! unat a @ [b]]) ! unat b @ [a]]"
    and ws': "weights g' = (?ws[unat a := ?ws ! unat a @ [w]])
                 [unat b := (?ws[unat a := ?ws ! unat a @ [w]]) ! unat b @ [w]]"
    by (auto simp: add_edge_def Let_def split: if_splits)
  have len: "length ?ws = length ?adj" using assms(1) by (rule wf_grafo_length)
  have "length (weights g' ! i) = length (adjacency_list g' ! i)" if "i < length ?adj" for i
    using wf_grafo_nth[OF assms(1) that] wf_grafo_nth[OF assms(1) ab(1)]
      wf_grafo_nth[OF assms(1) ab(2)] that len ab
    by (simp add: adj' ws' nth_list_update)
  moreover have "unat v < length ?adj" if "i < length ?adj" "v \<in> set (adjacency_list g' ! i)" for i v
    using wf_grafo_nth[OF assms(1) that(1)] wf_grafo_nth[OF assms(1) ab(1)]
      wf_grafo_nth[OF assms(1) ab(2)] that ab
    by (auto simp: adj' nth_list_update split: if_splits)
  ultimately show ?thesis
    using len by (simp add: wf_grafo_def list_all2_conv_all_nth list_all_length adj' ws' in_set_conv_nth) blast
qed

lemma wf_grafo_add_edges: "wf_grafo g \<Longrightarrow> add_edges g es = Inr g' \<Longrightarrow> wf_grafo g'"
  by (induction g es rule: add_edges.induct) (auto split: sum.splits dest: wf_grafo_add_edge)

lemma add_edge_ok:
  "wf_grafo g \<Longrightarrow> unat a < node_count g \<Longrightarrow> unat b < node_count g \<Longrightarrow> \<exists>g'. add_edge g a b w = Inr g'"
  by (simp add: add_edge_def Let_def node_count_def wf_grafo_length)

lemma node_count_add_edge: "add_edge g a b w = Inr g' \<Longrightarrow> node_count g' = node_count g"
  by (auto simp: add_edge_def Let_def node_count_def split: if_splits)

lemma has_wedge_add_edge_new:
  assumes "wf_grafo g" "add_edge g a b w = Inr g'"
  shows "has_wedge g' a b w \<and> has_wedge g' b a w"
proof -
  let ?adj = "adjacency_list g" and ?ws = "weights g"
  from assms(2) have ab: "unat a < length ?adj" "unat b < length ?adj"
    and adj': "adjacency_list g' = (?adj[unat a := ?adj ! unat a @ [b]])
                 [unat b := (?adj[unat a := ?adj ! unat a @ [b]]) ! unat b @ [a]]"
    and ws': "weights g' = (?ws[unat a := ?ws ! unat a @ [w]])
                 [unat b := (?ws[unat a := ?ws ! unat a @ [w]]) ! unat b @ [w]]"
    by (auto simp: add_edge_def Let_def split: if_splits)
  have len: "length ?ws = length ?adj" using assms(1) by (rule wf_grafo_length)
  note la = wf_grafo_nth[OF assms(1) ab(1), THEN conjunct1]
  note lb = wf_grafo_nth[OF assms(1) ab(2), THEN conjunct1]
  show ?thesis
    using ab len la lb by (auto simp: has_wedge_def adj' ws' nth_list_update)
qed

lemma has_wedge_add_edge_old:
  assumes "wf_grafo g" "add_edge g a b w = Inr g'" "has_wedge g u v x"
  shows "has_wedge g' u v x"
proof -
  let ?adj = "adjacency_list g" and ?ws = "weights g"
  from assms(2) have ab: "unat a < length ?adj" "unat b < length ?adj"
    and adj': "adjacency_list g' = (?adj[unat a := ?adj ! unat a @ [b]])
                 [unat b := (?adj[unat a := ?adj ! unat a @ [b]]) ! unat b @ [a]]"
    and ws': "weights g' = (?ws[unat a := ?ws ! unat a @ [w]])
                 [unat b := (?ws[unat a := ?ws ! unat a @ [w]]) ! unat b @ [w]]"
    by (auto simp: add_edge_def Let_def split: if_splits)
  have len: "length ?ws = length ?adj" using assms(1) by (rule wf_grafo_length)
  from assms(3) have u: "unat u < length ?adj" by (simp add: has_wedge_def)
  note lu = wf_grafo_nth[OF assms(1) u, THEN conjunct1]
  show ?thesis
    using assms(3) ab len lu by (auto simp: has_wedge_def adj' ws' nth_list_update)
qed

lemma add_edges_symmetric_aux:
  "wf_grafo g \<Longrightarrow> \<forall>(a, b, w)\<in>set es. unat a < node_count g \<and> unat b < node_count g \<Longrightarrow>
   \<exists>g'. add_edges g es = Inr g' \<and>
     (\<forall>u v x. has_wedge g u v x \<longrightarrow> has_wedge g' u v x) \<and>
     (\<forall>(a, b, w)\<in>set es. has_wedge g' a b w \<and> has_wedge g' b a w)"
proof (induction g es rule: add_edges.induct)
  case (1 g)
  then show ?case by simp
next
  case (2 g a b w es)
  from "2.prems" obtain g1 where g1: "add_edge g a b w = Inr g1"
    using add_edge_ok[of g a b w] by auto
  have wf1: "wf_grafo g1" using "2.prems"(1) g1 by (rule wf_grafo_add_edge)
  have "\<forall>(a, b, w)\<in>set es. unat a < node_count g1 \<and> unat b < node_count g1"
    using "2.prems"(2) node_count_add_edge[OF g1] by auto
  from "2.IH"[OF g1 wf1 this] obtain g' where g': "add_edges g1 es = Inr g'"
    and old: "\<forall>u v x. has_wedge g1 u v x \<longrightarrow> has_wedge g' u v x"
    and new: "\<forall>(a, b, w)\<in>set es. has_wedge g' a b w \<and> has_wedge g' b a w"
    by blast
  have "has_wedge g' a b w \<and> has_wedge g' b a w"
    using has_wedge_add_edge_new[OF "2.prems"(1) g1] old by blast
  moreover have "\<forall>u v x. has_wedge g u v x \<longrightarrow> has_wedge g' u v x"
    using has_wedge_add_edge_old[OF "2.prems"(1) g1] old by blast
  ultimately show ?case using g1 g' new by auto
qed

text \<open>
  C7. After \<^verbatim>\<open>add_edge(a, b, w)\<close> with node ids \<open>a\<close> and \<open>b\<close> of the graph, the
  adjacency of \<open>a\<close> holds the entry \<open>(b, w)\<close> and the adjacency of \<open>b\<close> the entry
  \<open>(a, w)\<close>, and every later insertion keeps them: after any sequence of insertions with
  valid node ids, each inserted edge is stored in both directions with its weight.
\<close>

theorem add_edge_symmetric:
  assumes "wf_grafo g"
    and "\<forall>(a, b, w)\<in>set es. unat a < node_count g \<and> unat b < node_count g"
  shows "\<exists>g'. add_edges g es = Inr g' \<and>
     (\<forall>(a, b, w)\<in>set es. has_wedge g' a b w \<and> has_wedge g' b a w)"
  using add_edges_symmetric_aux[OF assms] by blast

theorem add_edge_symmetric_witness:
  "wf_grafo (Grafo 6 :: 64 word Grafo) \<and>
   list_all (\<lambda>(a, b, w). unat a < node_count (Grafo 6 :: 64 word Grafo) \<and>
      unat b < node_count (Grafo 6 :: 64 word Grafo)) main_edges \<and>
   add_edges (Grafo 6) main_edges = Inr main_grafo \<and>
   list_all (\<lambda>(a, b, w). has_wedge main_grafo a b w \<and> has_wedge main_grafo b a w) main_edges"
proof -
  have 1: "wf_grafo (Grafo 6 :: 64 word Grafo)"
    by code_simp
  have 2: "list_all (\<lambda>(a, b, w). unat a < node_count (Grafo 6 :: 64 word Grafo) \<and>
      unat b < node_count (Grafo 6 :: 64 word Grafo)) main_edges"
    by code_simp
  have 3: "add_edges (Grafo 6) main_edges = Inr main_grafo"
    by code_simp
  from 2 have "\<forall>(a, b, w)\<in>set main_edges. unat a < node_count (Grafo 6 :: 64 word Grafo) \<and>
      unat b < node_count (Grafo 6 :: 64 word Grafo)"
    by (simp only: list_all_iff)
  from add_edge_symmetric[OF 1 this] 3
  have "\<forall>(a, b, w)\<in>set main_edges. has_wedge main_grafo a b w \<and> has_wedge main_grafo b a w"
    by simp
  then have "list_all (\<lambda>(a, b, w). has_wedge main_grafo a b w \<and> has_wedge main_grafo b a w) main_edges"
    by (simp only: list_all_iff)
  with 1 2 3 show ?thesis by blast
qed

section \<open>The search loop returns\<close>

lemma unvisited_decreases:
  "i < length visited \<Longrightarrow> \<not> visited ! i \<Longrightarrow>
     length (filter Not (visited[i := True])) < length (filter Not visited)"
proof (induction visited arbitrary: i)
  case Nil
  then show ?case by simp
next
  case (Cons b bs)
  show ?case
  proof (cases i)
    case 0
    with Cons.prems show ?thesis by simp
  next
    case (Suc j)
    with Cons.prems Cons.IH[of j] show ?thesis by simp
  qed
qed

definition loop_order :: "((bool list \<times> nat) \<times> (bool list \<times> nat)) set" where
  "loop_order = inv_image (less_than <*lex*> less_than) (\<lambda>(visited, k). (length (filter Not visited), k))"

lemma wf_loop_order: "wf loop_order"
  unfolding loop_order_def by (intro wf_inv_image wf_lex_prod wf_less_than)

lemma loop_order_pop: "((visited, length rest), (visited, length (current # rest))) \<in> loop_order"
  by (simp add: loop_order_def)

lemma loop_order_visit:
  "i < length visited \<Longrightarrow> \<not> visited ! i \<Longrightarrow> ((visited[i := True], k), (visited, k')) \<in> loop_order"
  by (simp add: loop_order_def unvisited_decreases)

lemma search_loop_induct [case_names step]:
  fixes P :: "'a::len word list \<Rightarrow> bool list \<Rightarrow> 'a word list \<Rightarrow> bool"
  assumes step: "\<And>path visited to_visit.
     (\<And>current rest. to_visit = current # rest \<Longrightarrow> current \<noteq> dst \<Longrightarrow>
        unat current < length visited \<Longrightarrow> visited ! unat current \<Longrightarrow> P path visited rest) \<Longrightarrow>
     (\<And>current rest path' to_visit'. to_visit = current # rest \<Longrightarrow> current \<noteq> dst \<Longrightarrow>
        unat current < length visited \<Longrightarrow> \<not> visited ! unat current \<Longrightarrow>
        unat current < length adj \<Longrightarrow>
        visit_adjacent push current (adj ! unat current) (visited[unat current := True]) path rest
          = Inr (path', to_visit') \<Longrightarrow>
        P path' (visited[unat current := True]) to_visit') \<Longrightarrow>
     P path visited to_visit"
  shows "P path visited to_visit"
proof -
  have "\<forall>path. P path (fst x) to_visit \<or> length to_visit \<noteq> snd x" for x to_visit
  proof (induction x arbitrary: to_visit rule: wf_induct_rule[OF wf_loop_order])
    case (1 x)
    show ?case
    proof (intro allI disjCI)
      fix path
      assume "\<not> length to_visit \<noteq> snd x"
      then have x: "x = (fst x, length to_visit)" by simp
      show "P path (fst x) to_visit"
      proof (rule step)
        fix current :: "'a word" and rest :: "'a word list"
        assume "to_visit = current # rest"
        then have "((fst x, length rest), x) \<in> loop_order"
          using loop_order_pop[of "fst x" rest current] x by simp
        from 1[OF this, of rest] show "P path (fst x) rest" by simp
      next
        fix current :: "'a word" and path' to_visit' :: "'a word list"
        assume "unat current < length (fst x)" "\<not> fst x ! unat current"
        then have "(((fst x)[unat current := True], length to_visit'), x) \<in> loop_order"
          using loop_order_visit[of "unat current" "fst x" "length to_visit'" "length to_visit"] x
          by simp
        from 1[OF this, of to_visit'] show "P path' ((fst x)[unat current := True]) to_visit'"
          by simp
      qed
    qed
  qed
  from this[of "(visited, length to_visit)" to_visit] show ?thesis by simp
qed

lemma search_loop_returns: "\<exists>r. search_loop push adj dst path visited to_visit = Some r"
proof (induction path visited to_visit rule: search_loop_induct[where dst = dst and adj = adj and push = push])
  case (step path visited to_visit)
  show ?case
  proof (cases to_visit)
    case Nil
    then show ?thesis by (simp add: search_loop.simps)
  next
    case (Cons current rest)
    show ?thesis
      using step(1)[OF Cons] step(2)[OF Cons]
      by (subst search_loop.simps) (auto simp: Cons split: sum.splits)
  qed
qed

text \<open>
  A rule for the loop: an invariant that excludes every access out of bounds and that each
  iteration keeps holds when the loop ends, and the loop ends with an empty frontier or with
  the destination at its head.
\<close>

lemma search_loop_total:
  fixes I :: "'a::len word list \<Rightarrow> bool list \<Rightarrow> 'a word list \<Rightarrow> bool"
  assumes init: "I path visited to_visit"
    and safe: "\<And>path visited current rest. I path visited (current # rest) \<Longrightarrow> current \<noteq> dst \<Longrightarrow>
       unat current < length visited \<and> unat current < length adj"
    and skip: "\<And>path visited current rest. I path visited (current # rest) \<Longrightarrow> current \<noteq> dst \<Longrightarrow>
       visited ! unat current \<Longrightarrow> I path visited rest"
    and visit: "\<And>path visited current rest. I path visited (current # rest) \<Longrightarrow> current \<noteq> dst \<Longrightarrow>
       \<not> visited ! unat current \<Longrightarrow>
       \<exists>path' to_visit'.
         visit_adjacent push current (adj ! unat current) (visited[unat current := True]) path rest
           = Inr (path', to_visit') \<and>
         I path' (visited[unat current := True]) to_visit'"
  shows "\<exists>p visited' to_visit'. search_loop push adj dst path visited to_visit = Some (Inr p) \<and>
           I p visited' to_visit' \<and> (to_visit' = [] \<or> hd to_visit' = dst)"
  using init
proof (induction path visited to_visit rule: search_loop_induct[where dst = dst and adj = adj and push = push])
  case (step path visited to_visit)
  show ?case
  proof (cases to_visit)
    case Nil
    have "search_loop push adj dst path visited [] = Some (Inr path)"
      by (subst search_loop.simps) simp
    with step.prems Nil show ?thesis by blast
  next
    case (Cons current rest)
    show ?thesis
    proof (cases "current = dst")
      case True
      have "search_loop push adj dst path visited (dst # rest) = Some (Inr path)"
        by (subst search_loop.simps) simp
      moreover have "hd (dst # rest) = dst" by simp
      ultimately show ?thesis using step.prems Cons True by blast
    next
      case False
      from step.prems have I: "I path visited (current # rest)" by (simp add: Cons)
      note s = safe[OF I False]
      show ?thesis
      proof (cases "visited ! unat current")
        case True
        from step(1)[OF Cons False _ True skip[OF I False True]] s
        show ?thesis
          by (subst search_loop.simps) (simp add: Cons False True)
      next
        case nv: False
        from visit[OF I False nv] obtain path' to_visit' where
          va: "visit_adjacent push current (adj ! unat current) (visited[unat current := True]) path rest
                 = Inr (path', to_visit')"
          and I': "I path' (visited[unat current := True]) to_visit'"
          by blast
        from step(2)[OF Cons False _ nv _ va I'] s
        show ?thesis
          by (subst search_loop.simps) (simp add: Cons False nv va)
      qed
    qed
  qed
qed

text \<open>What the inner loop does to the predecessors and to the frontier.\<close>

lemma visit_adjacent_Inr:
  assumes push: "\<And>n tv. set (push n tv) = insert n (set tv)"
    and "\<forall>n\<in>set ns. unat n < length visited" "length path = length visited"
  shows "\<exists>path' to_visit'. visit_adjacent push current ns visited path to_visit = Inr (path', to_visit') \<and>
     length path' = length path \<and>
     set to_visit' = set to_visit \<union> {n \<in> set ns. \<not> visited ! unat n} \<and>
     (\<forall>i<length path. path' ! i =
        (if (\<exists>n\<in>set ns. unat n = i) \<and> \<not> visited ! i then current else path ! i))"
  using assms(2,3)
proof (induction ns arbitrary: path to_visit)
  case Nil
  then show ?case by simp
next
  case (Cons n ns)
  show ?case
  proof (cases "visited ! unat n")
    case True
    from Cons.IH[of path to_visit] Cons.prems obtain path' to_visit' where
      *: "visit_adjacent push current ns visited path to_visit = Inr (path', to_visit')"
      "length path' = length path"
      "set to_visit' = set to_visit \<union> {n \<in> set ns. \<not> visited ! unat n}"
      "\<forall>i<length path. path' ! i =
        (if (\<exists>n\<in>set ns. unat n = i) \<and> \<not> visited ! i then current else path ! i)"
      by auto
    show ?thesis
      using * True Cons.prems by auto
  next
    case False
    from Cons.IH[of "path[unat n := current]" "push n to_visit"] Cons.prems obtain path' to_visit' where
      *: "visit_adjacent push current ns visited (path[unat n := current]) (push n to_visit)
            = Inr (path', to_visit')"
      "length path' = length path"
      "set to_visit' = set (push n to_visit) \<union> {n \<in> set ns. \<not> visited ! unat n}"
      "\<forall>i<length path. path' ! i =
        (if (\<exists>n\<in>set ns. unat n = i) \<and> \<not> visited ! i then current
         else path[unat n := current] ! i)"
      by auto
    have "path' ! i = (if (\<exists>m\<in>set (n # ns). unat m = i) \<and> \<not> visited ! i then current else path ! i)"
      if "i < length path" for i
    proof (cases "i = unat n")
      case True
      with *(4) that False show ?thesis by simp
    next
      case neq: False
      then have "path[unat n := current] ! i = path ! i" by simp
      moreover from neq have "(\<exists>m\<in>set (n # ns). unat m = i) = (\<exists>m\<in>set ns. unat m = i)" by auto
      ultimately show ?thesis using *(4) that by simp
    qed
    then show ?thesis
      using *(1,2,3) False Cons.prems by (auto simp: push)
  qed
qed

section \<open>Predecessor chains\<close>

text \<open>
  \<open>pred_chain g path src v xs\<close>: following the predecessors in \<open>path\<close> from \<open>v\<close> leads to
  \<open>src\<close> along edges of the graph, and \<open>xs\<close> is the sequence of nodes from \<open>src\<close> to \<open>v\<close>.
\<close>

inductive pred_chain ::
  "'a::len word Grafo \<Rightarrow> 'a word list \<Rightarrow> 'a word \<Rightarrow> 'a word \<Rightarrow> 'a word list \<Rightarrow> bool"
  for g path src where
  chain_src: "pred_chain g path src src [src]"
| chain_step: "v \<noteq> src \<Longrightarrow> unat v < length path \<Longrightarrow> has_edge g (path ! unat v) v \<Longrightarrow>
     pred_chain g path src (path ! unat v) xs \<Longrightarrow> pred_chain g path src v (xs @ [v])"

lemma is_path_snoc:
  "xs \<noteq> [] \<Longrightarrow> is_path g (xs @ [v]) = (is_path g xs \<and> has_edge g (last xs) v)"
  by (induction g xs rule: is_path.induct) auto

lemma pred_chain_path_between: "pred_chain g path src v xs \<Longrightarrow> path_between g src v xs"
proof (induction rule: pred_chain.induct)
  case chain_src
  show ?case by (simp add: path_between_def)
next
  case (chain_step v xs)
  then show ?case by (auto simp: path_between_def is_path_snoc)
qed

lemma pred_chain_reconstruct:
  "pred_chain g path src v xs \<Longrightarrow> reconstruct path src v acc = Some (Inr (xs @ acc))"
proof (induction arbitrary: acc rule: pred_chain.induct)
  case chain_src
  show ?case by (subst reconstruct.simps) simp
next
  case (chain_step v xs)
  from chain_step.IH[of "v # acc"] chain_step.hyps(1,2) show ?case
    by (subst reconstruct.simps) simp
qed

lemma pred_chain_cong:
  "pred_chain g path src v xs \<Longrightarrow> length path' = length path \<Longrightarrow>
   \<forall>x\<in>set xs. path' ! unat x = path ! unat x \<Longrightarrow> pred_chain g path' src v xs"
proof (induction rule: pred_chain.induct)
  case chain_src
  show ?case by (rule pred_chain.chain_src)
next
  case (chain_step v xs)
  have eq: "path' ! unat v = path ! unat v" using chain_step.prems(2) by simp
  have "pred_chain g path' src (path ! unat v) xs"
    using chain_step.IH chain_step.prems by simp
  with chain_step.hyps(1,2,3) chain_step.prems(1) eq show ?case
    using pred_chain.chain_step[of v src path' g xs] by simp
qed

lemma reachable_refl: "reachable g v v"
  unfolding reachable_def path_between_def by (rule exI[of _ "[v]"]) simp

lemma reachable_step: "reachable g s u \<Longrightarrow> has_edge g u v \<Longrightarrow> reachable g s v"
  unfolding reachable_def path_between_def
proof (elim exE conjE)
  fix p
  assume "p \<noteq> []" "hd p = s" "last p = u" "is_path g p" "has_edge g u v"
  then have "p @ [v] \<noteq> [] \<and> hd (p @ [v]) = s \<and> last (p @ [v]) = v \<and> is_path g (p @ [v])"
    by (simp add: is_path_snoc)
  then show "\<exists>p. p \<noteq> [] \<and> hd p = s \<and> last p = v \<and> is_path g p" by blast
qed

lemma has_edge_in_range: "wf_grafo g \<Longrightarrow> has_edge g u v \<Longrightarrow> unat v < length (adjacency_list g)"
  using wf_grafo_nth[of g "unat u"] by (auto simp: has_edge_def)

text \<open>A set of nodes that holds \<open>src\<close> and is closed under the edges holds every reachable node.\<close>

lemma is_path_closed:
  "is_path g p \<Longrightarrow> p \<noteq> [] \<Longrightarrow> hd p \<in> S \<Longrightarrow> \<forall>u v. u \<in> S \<longrightarrow> has_edge g u v \<longrightarrow> v \<in> S \<Longrightarrow> last p \<in> S"
  by (induction g p rule: is_path.induct) auto

lemma reachable_closed:
  "reachable g src v \<Longrightarrow> src \<in> S \<Longrightarrow> \<forall>u v. u \<in> S \<longrightarrow> has_edge g u v \<longrightarrow> v \<in> S \<Longrightarrow> v \<in> S"
  unfolding reachable_def path_between_def using is_path_closed[of g _ S] by blast

lemma reachable_in_range:
  assumes "wf_grafo g" "unat src < length (adjacency_list g)" "reachable g src v"
  shows "unat v < length (adjacency_list g)"
  using reachable_closed[OF assms(3), of "{v. unat v < length (adjacency_list g)}"] assms(1,2)
  by (auto dest: has_edge_in_range)

section \<open>Invariants of the search loop\<close>

text \<open>
  Every visited node has a predecessor chain through visited nodes, and every node of the
  frontier other than \<open>src\<close> has a visited predecessor joined to it by an edge.
\<close>

definition chain_inv ::
  "'a::len word Grafo \<Rightarrow> 'a word \<Rightarrow> 'a word list \<Rightarrow> bool list \<Rightarrow> 'a word list \<Rightarrow> bool" where
  "chain_inv g src path visited to_visit \<longleftrightarrow>
     (\<forall>v. unat v < node_count g \<longrightarrow> visited ! unat v \<longrightarrow>
        (\<exists>xs. pred_chain g path src v xs \<and> (\<forall>x\<in>set xs. unat x < node_count g \<and> visited ! unat x))) \<and>
     (\<forall>v\<in>set to_visit. unat v < node_count g \<and>
        (v = src \<or> (unat (path ! unat v) < node_count g \<and> visited ! unat (path ! unat v) \<and>
           has_edge g (path ! unat v) v)))"

text \<open>
  Every edge out of a visited node leads to a visited node or to the frontier, \<open>src\<close> is
  visited or in the frontier, and \<open>dst\<close> is never marked visited.
\<close>

definition closed_inv ::
  "'a::len word Grafo \<Rightarrow> 'a word \<Rightarrow> 'a word \<Rightarrow> bool list \<Rightarrow> 'a word list \<Rightarrow> bool" where
  "closed_inv g src dst visited to_visit \<longleftrightarrow>
     (\<forall>u v. unat u < node_count g \<longrightarrow> visited ! unat u \<longrightarrow> has_edge g u v \<longrightarrow>
        visited ! unat v \<or> v \<in> set to_visit) \<and>
     (visited ! unat src \<or> src \<in> set to_visit) \<and>
     (unat dst < node_count g \<longrightarrow> \<not> visited ! unat dst)"

text \<open>
  Only nodes reachable from \<open>src\<close> enter the frontier, and the predecessor of a node that is
  not reachable keeps its initial value.
\<close>

definition unreached_inv ::
  "'a::len word Grafo \<Rightarrow> 'a word \<Rightarrow> 'a word \<Rightarrow> 'a word list \<Rightarrow> 'a word list \<Rightarrow> bool" where
  "unreached_inv g src init path to_visit \<longleftrightarrow>
     (\<forall>v. unat v < node_count g \<longrightarrow> \<not> reachable g src v \<longrightarrow> path ! unat v = init) \<and>
     (\<forall>v\<in>set to_visit. reachable g src v)"

lemma chain_inv_skip:
  "chain_inv g src path visited (current # rest) \<Longrightarrow> chain_inv g src path visited rest"
  by (simp add: chain_inv_def)

lemma closed_inv_skip:
  "closed_inv g src dst visited (current # rest) \<Longrightarrow> unat current < node_count g \<Longrightarrow>
   visited ! unat current \<Longrightarrow> closed_inv g src dst visited rest"
  unfolding closed_inv_def by (metis set_ConsD)

lemma unreached_inv_skip:
  "unreached_inv g src init path (current # rest) \<Longrightarrow> unreached_inv g src init path rest"
  by (simp add: unreached_inv_def)

lemma chain_inv_step:
  fixes g :: "'a::len word Grafo"
  assumes inv: "chain_inv g src path visited to_visit"
    and ct: "current \<in> set to_visit"
    and lp: "length path = node_count g" and lv: "length visited = node_count g"
    and len': "length path' = length path"
    and keep: "\<forall>i<node_count g. visited[unat current := True] ! i \<longrightarrow> path' ! i = path ! i"
    and tv': "\<forall>v\<in>set to_visit'.
        (unat v < node_count g \<and> path' ! unat v = current \<and> has_edge g current v) \<or>
        (v \<in> set to_visit \<and> path' ! unat v = path ! unat v)"
  shows "chain_inv g src path' (visited[unat current := True]) to_visit'"
proof -
  let ?n = "node_count g" and ?V = "visited[unat current := True]"
  from inv ct have cur: "unat current < ?n" by (simp add: chain_inv_def)
  have F1: "path' ! i = path ! i" if "i < ?n" "?V ! i" for i
    using keep that by simp
  have F2: "?V ! i" if "i < ?n" "visited ! i" for i
    using that lv cur by (simp add: nth_list_update)
  have F3: "?V ! unat current" using cur lv by simp
  have old: "\<exists>xs. pred_chain g path' src v xs \<and> (\<forall>x\<in>set xs. unat x < ?n \<and> ?V ! unat x)"
    if "unat v < ?n" "visited ! unat v" for v
  proof -
    from inv that obtain xs where xs: "pred_chain g path src v xs"
      "\<forall>x\<in>set xs. unat x < ?n \<and> visited ! unat x"
      unfolding chain_inv_def by blast
    have "pred_chain g path' src v xs"
      using xs(1) len' by (rule pred_chain_cong) (use xs(2) F1 F2 in auto)
    with xs(2) F2 show ?thesis by blast
  qed
  have part1: "\<exists>xs. pred_chain g path' src v xs \<and> (\<forall>x\<in>set xs. unat x < ?n \<and> ?V ! unat x)"
    if v: "unat v < ?n" "?V ! unat v" for v
  proof (cases "visited ! unat v")
    case True
    with v(1) show ?thesis by (rule old)
  next
    case False
    with v(2) have "unat v = unat current" by (metis nth_list_update_neq)
    then have vc: "v = current" by (simp add: word_unat_eq_iff)
    show ?thesis
    proof (cases "current = src")
      case True
      then have "pred_chain g path' src v [src]" using vc by (simp add: pred_chain.chain_src)
      moreover have "\<forall>x\<in>set [src]. unat x < ?n \<and> ?V ! unat x"
        using True cur F3 by simp
      ultimately show ?thesis by blast
    next
      case ne: False
      with inv ct have u: "unat (path ! unat current) < ?n \<and>
          visited ! unat (path ! unat current) \<and> has_edge g (path ! unat current) current"
        by (auto simp: chain_inv_def)
      from old[of "path ! unat current"] u obtain xs where
        xs: "pred_chain g path' src (path ! unat current) xs"
        "\<forall>x\<in>set xs. unat x < ?n \<and> ?V ! unat x"
        by blast
      have eq: "path' ! unat current = path ! unat current" using F1 cur F3 by simp
      have "pred_chain g path' src current (xs @ [current])"
        using pred_chain.chain_step[of current src path' g xs] ne cur len' lp u xs(1) eq
        by simp
      moreover have "\<forall>x\<in>set (xs @ [current]). unat x < ?n \<and> ?V ! unat x"
        using xs(2) cur F3 by simp
      ultimately show ?thesis using vc by blast
    qed
  qed
  have part2: "unat v < ?n \<and> (v = src \<or> (unat (path' ! unat v) < ?n \<and>
      ?V ! unat (path' ! unat v) \<and> has_edge g (path' ! unat v) v))"
    if v: "v \<in> set to_visit'" for v
  proof -
    from tv' v consider
      "unat v < ?n \<and> path' ! unat v = current \<and> has_edge g current v" |
      "v \<in> set to_visit \<and> path' ! unat v = path ! unat v"
      by blast
    then show ?thesis
    proof cases
      case 1
      then show ?thesis using cur F3 by simp
    next
      case 2
      with inv have r: "unat v < ?n" and o: "v = src \<or> (unat (path ! unat v) < ?n \<and>
          visited ! unat (path ! unat v) \<and> has_edge g (path ! unat v) v)"
        by (simp_all add: chain_inv_def)
      with 2 F2 show ?thesis by auto
    qed
  qed
  show ?thesis
    unfolding chain_inv_def using part1 part2 by blast
qed

lemma chain_inv_visit:
  fixes g :: "'a::len word Grafo"
  assumes wf: "wf_grafo g"
    and inv: "chain_inv g src path visited (current # rest)"
    and lp: "length path = node_count g" and lv: "length visited = node_count g"
    and nv: "\<not> visited ! unat current"
    and len': "length path' = length path"
    and tv': "set to_visit' = set rest \<union>
        {m \<in> set (adjacency_list g ! unat current). \<not> visited[unat current := True] ! unat m}"
    and p': "\<forall>i<length path. path' ! i =
        (if (\<exists>m\<in>set (adjacency_list g ! unat current). unat m = i) \<and>
            \<not> visited[unat current := True] ! i then current else path ! i)"
  shows "chain_inv g src path' (visited[unat current := True]) to_visit'"
proof -
  let ?n = "node_count g" and ?V = "visited[unat current := True]"
  let ?ns = "adjacency_list g ! unat current"
  from inv have cur: "unat current < ?n" by (simp add: chain_inv_def)
  have F5: "unat m < ?n" if "m \<in> set ?ns" for m
    using wf_grafo_nth[OF wf, of "unat current"] cur that by (simp add: node_count_def)
  have keep: "\<forall>i<?n. ?V ! i \<longrightarrow> path' ! i = path ! i"
    using p' lp by simp
  have "(unat v < ?n \<and> path' ! unat v = current \<and> has_edge g current v) \<or>
        (v \<in> set (current # rest) \<and> path' ! unat v = path ! unat v)"
    if v: "v \<in> set to_visit'" for v
  proof (cases "v \<in> set ?ns \<and> \<not> ?V ! unat v")
    case True
    then have r: "unat v < ?n" using F5 by simp
    with True p' lp have "path' ! unat v = current" by auto
    moreover have "has_edge g current v"
      using True cur by (simp add: has_edge_def node_count_def)
    ultimately show ?thesis using r by simp
  next
    case False
    with v tv' have vr: "v \<in> set rest" by auto
    with inv have r: "unat v < ?n" by (simp add: chain_inv_def)
    have "\<not> ((\<exists>m\<in>set ?ns. unat m = unat v) \<and> \<not> ?V ! unat v)"
      using False by (metis word_unat_eq_iff)
    with p' r lp have "path' ! unat v = path ! unat v" by auto
    with vr show ?thesis by simp
  qed
  then have "\<forall>v\<in>set to_visit'.
        (unat v < ?n \<and> path' ! unat v = current \<and> has_edge g current v) \<or>
        (v \<in> set (current # rest) \<and> path' ! unat v = path ! unat v)"
    by blast
  with inv _ lp lv len' keep show ?thesis
    by (rule chain_inv_step) simp
qed

lemma closed_inv_visit:
  fixes g :: "'a::len word Grafo"
  assumes inv: "closed_inv g src dst visited (current # rest)"
    and lv: "length visited = node_count g"
    and cur: "unat current < node_count g" and nd: "current \<noteq> dst"
    and tv': "set to_visit' = set rest \<union>
        {m \<in> set (adjacency_list g ! unat current). \<not> visited[unat current := True] ! unat m}"
  shows "closed_inv g src dst (visited[unat current := True]) to_visit'"
proof -
  let ?n = "node_count g" and ?V = "visited[unat current := True]"
  have F2: "?V ! i" if "i < ?n" "visited ! i" for i
    using that lv cur by (simp add: nth_list_update)
  have F3: "?V ! unat current" using cur lv by simp
  have a: "?V ! unat v \<or> v \<in> set to_visit'"
    if "unat u < ?n" "?V ! unat u" "has_edge g u v" for u v
  proof (cases "visited ! unat u")
    case True
    with inv that have "visited ! unat v \<or> v \<in> set (current # rest)"
      unfolding closed_inv_def by blast
    then consider "visited ! unat v" | "v = current" | "v \<in> set rest" by auto
    then show ?thesis
    proof cases
      case 1
      have "unat v < ?n \<or> \<not> unat v < ?n" by simp
      then show ?thesis
      proof
        assume "unat v < ?n" with 1 F2 show ?thesis by simp
      next
        assume "\<not> unat v < ?n"
        then have "unat v \<noteq> unat current" using cur by auto
        with 1 show ?thesis by simp
      qed
    next
      case 2 with F3 show ?thesis by simp
    next
      case 3 with tv' show ?thesis by simp
    qed
  next
    case False
    with that(2) have "unat u = unat current" by (metis nth_list_update_neq)
    then have "u = current" by (simp add: word_unat_eq_iff)
    with that(3) have "v \<in> set (adjacency_list g ! unat current)" by (simp add: has_edge_def)
    with tv' show ?thesis by auto
  qed
  have b: "?V ! unat src \<or> src \<in> set to_visit'"
  proof -
    from inv have "visited ! unat src \<or> src \<in> set (current # rest)" by (simp add: closed_inv_def)
    then consider "visited ! unat src" | "src = current" | "src \<in> set rest" by auto
    then show ?thesis
    proof cases
      case 1
      then have "?V ! unat src" using F3 by (metis nth_list_update_neq)
      then show ?thesis by simp
    next
      case 2 with F3 show ?thesis by simp
    next
      case 3 with tv' show ?thesis by simp
    qed
  qed
  have c: "\<not> ?V ! unat dst" if "unat dst < ?n"
  proof -
    from nd have "unat dst \<noteq> unat current" by (simp add: word_unat_eq_iff)
    with inv that show ?thesis by (simp add: closed_inv_def)
  qed
  show ?thesis unfolding closed_inv_def using a b c by blast
qed

lemma unreached_inv_visit:
  fixes g :: "'a::len word Grafo"
  assumes inv: "unreached_inv g src init path (current # rest)"
    and lp: "length path = node_count g"
    and cur: "unat current < node_count g"
    and tv': "set to_visit' = set rest \<union>
        {m \<in> set (adjacency_list g ! unat current). \<not> visited[unat current := True] ! unat m}"
    and p': "\<forall>i<length path. path' ! i =
        (if (\<exists>m\<in>set (adjacency_list g ! unat current). unat m = i) \<and>
            \<not> visited[unat current := True] ! i then current else path ! i)"
  shows "unreached_inv g src init path' to_visit'"
proof -
  from inv have rc: "reachable g src current" by (simp add: unreached_inv_def)
  have nb: "reachable g src m" if "m \<in> set (adjacency_list g ! unat current)" for m
    using rc that cur by (auto intro: reachable_step simp: has_edge_def node_count_def)
  have "path' ! unat v = init" if "unat v < node_count g" "\<not> reachable g src v" for v
  proof -
    have "\<not> (\<exists>m\<in>set (adjacency_list g ! unat current). unat m = unat v)"
      using nb that(2) by (metis word_unat_eq_iff)
    with p' that(1) lp have "path' ! unat v = path ! unat v" by simp
    with inv that show ?thesis by (simp add: unreached_inv_def)
  qed
  moreover have "reachable g src v" if "v \<in> set to_visit'" for v
    using that tv' nb inv by (auto simp: unreached_inv_def)
  ultimately show ?thesis by (simp add: unreached_inv_def)
qed

definition search_inv ::
  "'a::len word Grafo \<Rightarrow> 'a word \<Rightarrow> 'a word \<Rightarrow> 'a word list \<Rightarrow> bool list \<Rightarrow> 'a word list \<Rightarrow> bool" where
  "search_inv g src dst path visited to_visit \<longleftrightarrow>
     length path = node_count g \<and> length visited = node_count g \<and>
     chain_inv g src path visited to_visit \<and> closed_inv g src dst visited to_visit \<and>
     unreached_inv g src T_max path to_visit"

lemma search_inv_init:
  "unat src < node_count g \<Longrightarrow>
   search_inv g src dst (replicate (node_count g) T_max) (replicate (node_count g) False) [src]"
  by (simp add: search_inv_def chain_inv_def closed_inv_def unreached_inv_def reachable_refl)

lemma unat_T_max: "unat (T_max :: 'a::len word) = 2 ^ LENGTH('a) - 1"
  by (simp add: T_max_def unsigned_minus_1_eq_mask mask_eq_exp_minus_1)

lemma stack_push_set: "set (stack_push n tv) = insert n (set tv)"
  by (simp add: stack_push_def)

lemma queue_push_set: "set (queue_push n tv) = insert n (set tv)"
  by (simp add: queue_push_def)

lemma search_loop_correct:
  fixes g :: "'a::len word Grafo"
  assumes push: "\<And>n tv. set (push n tv) = insert n (set tv)"
    and wf: "wf_grafo g" and src: "unat src < node_count g"
  shows "\<exists>p visited' to_visit'.
     search_loop push (adjacency_list g) dst (replicate (node_count g) T_max)
       (replicate (node_count g) False) [src] = Some (Inr p) \<and>
     search_inv g src dst p visited' to_visit' \<and> (to_visit' = [] \<or> hd to_visit' = dst)"
proof (rule search_loop_total[where I = "search_inv g src dst"])
  show "search_inv g src dst (replicate (node_count g) T_max) (replicate (node_count g) False) [src]"
    using src by (rule search_inv_init)
next
  fix path visited current rest
  assume "search_inv g src dst path visited (current # rest)"
  then show "unat current < length visited \<and> unat current < length (adjacency_list g)"
    by (simp add: search_inv_def chain_inv_def node_count_def)
next
  fix path visited current rest
  assume I: "search_inv g src dst path visited (current # rest)" and v: "visited ! unat current"
  from I have "unat current < node_count g" by (simp add: search_inv_def chain_inv_def)
  with I v show "search_inv g src dst path visited rest"
    unfolding search_inv_def
    using chain_inv_skip closed_inv_skip unreached_inv_skip by blast
next
  fix path visited current rest
  assume I: "search_inv g src dst path visited (current # rest)"
    and nd: "current \<noteq> dst" and nv: "\<not> visited ! unat current"
  let ?V = "visited[unat current := True]" and ?ns = "adjacency_list g ! unat current"
  from I have lp: "length path = node_count g" and lv: "length visited = node_count g"
    and ci: "chain_inv g src path visited (current # rest)"
    and cl: "closed_inv g src dst visited (current # rest)"
    and ur: "unreached_inv g src T_max path (current # rest)"
    by (simp_all add: search_inv_def)
  from ci have cur: "unat current < node_count g" by (simp add: chain_inv_def)
  have "\<forall>n\<in>set ?ns. unat n < length ?V"
    using wf_grafo_nth[OF wf, of "unat current"] cur lv by (simp add: node_count_def)
  moreover have "length path = length ?V" using lp lv by simp
  ultimately obtain path' to_visit' where
    va: "visit_adjacent push current ?ns ?V path rest = Inr (path', to_visit')"
    and len': "length path' = length path"
    and tv': "set to_visit' = set rest \<union> {n \<in> set ?ns. \<not> ?V ! unat n}"
    and p': "\<forall>i<length path. path' ! i =
        (if (\<exists>n\<in>set ?ns. unat n = i) \<and> \<not> ?V ! i then current else path ! i)"
    using visit_adjacent_Inr[of push ?ns ?V path current rest, OF push] by blast
  have "chain_inv g src path' ?V to_visit'"
    using wf ci lp lv nv len' tv' p' by (rule chain_inv_visit)
  moreover have "closed_inv g src dst ?V to_visit'"
    using cl lv cur nd tv' by (rule closed_inv_visit)
  moreover have "unreached_inv g src T_max path' to_visit'"
    using ur lp cur tv' p' by (rule unreached_inv_visit)
  ultimately have "search_inv g src dst path' ?V to_visit'"
    using len' lp lv by (simp add: search_inv_def)
  with va show "\<exists>path' to_visit'.
      visit_adjacent push current ?ns ?V path rest = Inr (path', to_visit') \<and>
      search_inv g src dst path' ?V to_visit'"
    by blast
qed

text \<open>When \<open>dst\<close> is reachable the loop ends at \<open>dst\<close>, and the reconstruction follows its chain.\<close>

lemma search_reachable:
  fixes g :: "'a::len word Grafo"
  assumes push: "\<And>n tv. set (push n tv) = insert n (set tv)"
    and wf: "wf_grafo g" and src: "unat src < node_count g" and r: "reachable g src dst"
  shows "\<exists>p. search push g src dst = Some (Inr p) \<and> path_between g src dst p"
proof -
  from search_loop_correct[OF push wf src, of dst] obtain p visited' to_visit' where
    loop: "search_loop push (adjacency_list g) dst (replicate (node_count g) T_max)
       (replicate (node_count g) False) [src] = Some (Inr p)"
    and I: "search_inv g src dst p visited' to_visit'"
    and ex: "to_visit' = [] \<or> hd to_visit' = dst"
    by blast
  from I have lp: "length p = node_count g" and lv: "length visited' = node_count g"
    and ci: "chain_inv g src p visited' to_visit'"
    and cl: "closed_inv g src dst visited' to_visit'"
    by (simp_all add: search_inv_def)
  have dr: "unat dst < node_count g"
    using reachable_in_range[OF wf _ r] src by (simp add: node_count_def)
  have ne: "to_visit' \<noteq> []"
  proof
    assume e: "to_visit' = []"
    let ?S = "{v. unat v < node_count g \<and> visited' ! unat v}"
    from cl e src have "src \<in> ?S" by (simp add: closed_inv_def)
    moreover have "\<forall>u v. u \<in> ?S \<longrightarrow> has_edge g u v \<longrightarrow> v \<in> ?S"
      using cl e has_edge_in_range[OF wf] by (auto simp: closed_inv_def node_count_def)
    ultimately have "dst \<in> ?S" using reachable_closed[OF r] by blast
    with cl dr show False by (simp add: closed_inv_def)
  qed
  with ex have "dst \<in> set to_visit'" by (cases to_visit') auto
  with ci have d: "dst = src \<or> (unat (p ! unat dst) < node_count g \<and>
      visited' ! unat (p ! unat dst) \<and> has_edge g (p ! unat dst) dst)"
    by (simp add: chain_inv_def)
  have "\<exists>xs. pred_chain g p src dst xs"
  proof (cases "dst = src")
    case True
    then show ?thesis using pred_chain.chain_src[of g p src] by auto
  next
    case False
    with d ci obtain xs where "pred_chain g p src (p ! unat dst) xs"
      unfolding chain_inv_def by blast
    with False d dr lp have "pred_chain g p src dst (xs @ [dst])"
      using pred_chain.chain_step[of dst src p g xs] by simp
    then show ?thesis by blast
  qed
  then obtain xs where xs: "pred_chain g p src dst xs" by blast
  have "search push g src dst = Some (Inr xs)"
    using loop pred_chain_reconstruct[OF xs, of "[]"]
    by (simp add: search_def node_count_def)
  with pred_chain_path_between[OF xs] show ?thesis by blast
qed

text \<open>
  When \<open>dst\<close> is not reachable its predecessor is still the maximum when the loop ends: the
  reconstruction goes from \<open>dst\<close> to the maximum and indexes \<open>path\<close> there.
\<close>

lemma search_unreachable:
  fixes g :: "'a::len word Grafo"
  assumes push: "\<And>n tv. set (push n tv) = insert n (set tv)"
    and wf: "wf_grafo g" and src: "unat src < node_count g" and dst: "unat dst < node_count g"
    and r: "\<not> reachable g src dst" and n: "node_count g < 2 ^ LENGTH('a)"
  shows "search push g src dst = Some (Inl OutOfBounds)"
proof -
  from search_loop_correct[OF push wf src, of dst] obtain p visited' to_visit' where
    loop: "search_loop push (adjacency_list g) dst (replicate (node_count g) T_max)
       (replicate (node_count g) False) [src] = Some (Inr p)"
    and I: "search_inv g src dst p visited' to_visit'"
    by blast
  from I have lp: "length p = node_count g"
    and ur: "unreached_inv g src T_max p to_visit'"
    by (simp_all add: search_inv_def)
  from ur dst r have pd: "p ! unat dst = T_max" by (simp add: unreached_inv_def)
  from r have ne: "dst \<noteq> src" using reachable_refl by auto
  note m = unat_T_max[where 'a = 'a]
  with n have oob: "\<not> unat (T_max :: 'a word) < node_count g" by simp
  with src have ms: "T_max \<noteq> src" by auto
  have "reconstruct p src T_max [dst] = Some (Inl OutOfBounds)"
    using ms oob lp by (subst reconstruct.simps) simp
  then have "reconstruct p src dst [] = Some (Inl OutOfBounds)"
    using ne dst lp pd by (subst reconstruct.simps) simp
  with loop show ?thesis by (simp add: search_def node_count_def)
qed

section \<open>The loop of Dijkstra returns\<close>

lemma loop_order_remove1:
  "priority_queue \<noteq> [] \<Longrightarrow>
   ((visited, length (remove1 (Min (set priority_queue)) priority_queue)),
    (visited, length priority_queue)) \<in> loop_order"
proof -
  assume "priority_queue \<noteq> []"
  then have "Min (set priority_queue) \<in> set priority_queue" by simp
  then have "length (remove1 (Min (set priority_queue)) priority_queue) = length priority_queue - 1"
    by (simp add: length_remove1)
  moreover have "0 < length priority_queue" using \<open>priority_queue \<noteq> []\<close> by simp
  ultimately have "length (remove1 (Min (set priority_queue)) priority_queue) < length priority_queue"
    by simp
  then show ?thesis by (simp add: loop_order_def)
qed

lemma dijkstra_loop_induct [case_names step]:
  fixes P :: "'a::len word list \<Rightarrow> bool list \<Rightarrow> 'a word list \<Rightarrow> ('a word \<times> 'a word) list \<Rightarrow> bool"
  assumes step: "\<And>path visited costs pq.
     (pq \<noteq> [] \<Longrightarrow> snd (Min (set pq)) \<noteq> dst \<Longrightarrow> unat (snd (Min (set pq))) < length visited \<Longrightarrow>
        visited ! unat (snd (Min (set pq))) \<Longrightarrow> P path visited costs (remove1 (Min (set pq)) pq)) \<Longrightarrow>
     (pq \<noteq> [] \<Longrightarrow> snd (Min (set pq)) \<noteq> dst \<Longrightarrow> unat (snd (Min (set pq))) < length visited \<Longrightarrow>
        \<not> visited ! unat (snd (Min (set pq))) \<Longrightarrow>
        P path (visited[unat (snd (Min (set pq))) := True]) costs (remove1 (Min (set pq)) pq)) \<Longrightarrow>
     (\<And>costs' pq' path'. pq \<noteq> [] \<Longrightarrow> snd (Min (set pq)) \<noteq> dst \<Longrightarrow>
        unat (snd (Min (set pq))) < length visited \<Longrightarrow> \<not> visited ! unat (snd (Min (set pq))) \<Longrightarrow>
        relax (snd (Min (set pq))) (adjacency_list g ! unat (snd (Min (set pq))))
          (weights g ! unat (snd (Min (set pq)))) costs (remove1 (Min (set pq)) pq) path
          = Inr (costs', pq', path') \<Longrightarrow>
        P path' (visited[unat (snd (Min (set pq))) := True]) costs' pq') \<Longrightarrow>
     P path visited costs pq"
  shows "P path visited costs pq"
proof -
  have "\<forall>path costs. P path (fst x) costs pq \<or> length pq \<noteq> snd x" for x pq
  proof (induction x arbitrary: pq rule: wf_induct_rule[OF wf_loop_order])
    case (1 x)
    show ?case
    proof (intro allI disjCI)
      fix path costs :: "'a word list"
      assume "\<not> length pq \<noteq> snd x"
      then have x: "x = (fst x, length pq)" by simp
      let ?cur = "snd (Min (set pq))"
      show "P path (fst x) costs pq"
      proof (rule step)
        assume "pq \<noteq> []"
        then have "((fst x, length (remove1 (Min (set pq)) pq)), x) \<in> loop_order"
          using loop_order_remove1[of pq "fst x"] x by simp
        from 1[OF this, of "remove1 (Min (set pq)) pq"]
        show "P path (fst x) costs (remove1 (Min (set pq)) pq)" by simp
      next
        assume "unat ?cur < length (fst x)" "\<not> fst x ! unat ?cur"
        then have "(((fst x)[unat ?cur := True], length (remove1 (Min (set pq)) pq)), x) \<in> loop_order"
          using loop_order_visit[of "unat ?cur" "fst x" _ "length pq"] x by simp
        from 1[OF this, of "remove1 (Min (set pq)) pq"]
        show "P path ((fst x)[unat ?cur := True]) costs (remove1 (Min (set pq)) pq)" by simp
      next
        fix costs' path' :: "'a word list" and pq' :: "('a word \<times> 'a word) list"
        assume "unat ?cur < length (fst x)" "\<not> fst x ! unat ?cur"
        then have "(((fst x)[unat ?cur := True], length pq'), x) \<in> loop_order"
          using loop_order_visit[of "unat ?cur" "fst x" "length pq'" "length pq"] x by simp
        from 1[OF this, of pq'] show "P path' ((fst x)[unat ?cur := True]) costs' pq'" by simp
      qed
    qed
  qed
  from this[of "(visited, length pq)" pq] show ?thesis by simp
qed

lemma dijkstra_loop_returns: "\<exists>r. dijkstra_loop g dst path visited costs priority_queue = Some r"
proof (induction path visited costs priority_queue rule: dijkstra_loop_induct[where dst = dst and g = g])
  case (step path visited costs pq)
  show ?case
  proof (cases "pq = []")
    case True
    then show ?thesis by (subst dijkstra_loop.simps) simp
  next
    case False
    show ?thesis
      using step(1)[OF False] step(2)[OF False] step(3)[OF False]
      by (subst dijkstra_loop.simps) (auto simp: Let_def False split: sum.splits)
  qed
qed

text \<open>The rule for the loop of Dijkstra, as for the search loop.\<close>

lemma dijkstra_loop_total:
  fixes I :: "'a::len word list \<Rightarrow> bool list \<Rightarrow> 'a word list \<Rightarrow> ('a word \<times> 'a word) list \<Rightarrow> bool"
  assumes init: "I path visited costs pq"
    and safe: "\<And>path visited costs pq. I path visited costs pq \<Longrightarrow> pq \<noteq> [] \<Longrightarrow>
       snd (Min (set pq)) \<noteq> dst \<Longrightarrow>
       unat (snd (Min (set pq))) < length visited \<and> unat (snd (Min (set pq))) < length costs \<and>
       unat (snd (Min (set pq))) < length (adjacency_list g) \<and>
       unat (snd (Min (set pq))) < length (weights g)"
    and skip: "\<And>path visited costs pq. I path visited costs pq \<Longrightarrow> pq \<noteq> [] \<Longrightarrow>
       snd (Min (set pq)) \<noteq> dst \<Longrightarrow> visited ! unat (snd (Min (set pq))) \<Longrightarrow>
       I path visited costs (remove1 (Min (set pq)) pq)"
    and stale: "\<And>path visited costs pq. I path visited costs pq \<Longrightarrow> pq \<noteq> [] \<Longrightarrow>
       snd (Min (set pq)) \<noteq> dst \<Longrightarrow> \<not> visited ! unat (snd (Min (set pq))) \<Longrightarrow>
       fst (Min (set pq)) \<noteq> costs ! unat (snd (Min (set pq))) \<Longrightarrow>
       I path (visited[unat (snd (Min (set pq))) := True]) costs (remove1 (Min (set pq)) pq)"
    and visit: "\<And>path visited costs pq. I path visited costs pq \<Longrightarrow> pq \<noteq> [] \<Longrightarrow>
       snd (Min (set pq)) \<noteq> dst \<Longrightarrow> \<not> visited ! unat (snd (Min (set pq))) \<Longrightarrow>
       fst (Min (set pq)) = costs ! unat (snd (Min (set pq))) \<Longrightarrow>
       \<exists>costs' pq' path'.
         relax (snd (Min (set pq))) (adjacency_list g ! unat (snd (Min (set pq))))
           (weights g ! unat (snd (Min (set pq)))) costs (remove1 (Min (set pq)) pq) path
           = Inr (costs', pq', path') \<and>
         I path' (visited[unat (snd (Min (set pq))) := True]) costs' pq'"
  shows "\<exists>p c visited' pq'. dijkstra_loop g dst path visited costs pq = Some (Inr (p, c)) \<and>
           I p visited' c pq' \<and> (pq' = [] \<or> snd (Min (set pq')) = dst)"
  using init
proof (induction path visited costs pq rule: dijkstra_loop_induct[where dst = dst and g = g])
  case (step path visited costs pq)
  let ?cur = "snd (Min (set pq))"
  show ?case
  proof (cases "pq = []")
    case True
    have "dijkstra_loop g dst path visited costs [] = Some (Inr (path, costs))"
      by (subst dijkstra_loop.simps) simp
    with step.prems True show ?thesis by blast
  next
    case ne: False
    show ?thesis
    proof (cases "?cur = dst")
      case True
      have "dijkstra_loop g dst path visited costs pq = Some (Inr (path, costs))"
        using ne True by (subst dijkstra_loop.simps) (simp add: Let_def)
      with step.prems True show ?thesis by blast
    next
      case nd: False
      note s = safe[OF step.prems ne nd]
      show ?thesis
      proof (cases "visited ! unat ?cur")
        case True
        from step(1)[OF ne nd _ True skip[OF step.prems ne nd True]] s
        show ?thesis
          by (subst dijkstra_loop.simps) (simp add: Let_def ne nd True)
      next
        case nv: False
        show ?thesis
        proof (cases "fst (Min (set pq)) = costs ! unat ?cur")
          case False
          from step(2)[OF ne nd _ nv stale[OF step.prems ne nd nv False]] s
          show ?thesis
            by (subst dijkstra_loop.simps) (simp add: Let_def ne nd nv False)
        next
          case True
          from visit[OF step.prems ne nd nv True] obtain costs' pq' path' where
            rl: "relax ?cur (adjacency_list g ! unat ?cur) (weights g ! unat ?cur) costs
                   (remove1 (Min (set pq)) pq) path = Inr (costs', pq', path')"
            and I': "I path' (visited[unat ?cur := True]) costs' pq'"
            by blast
          from step(3)[OF ne nd _ nv rl I'] s
          show ?thesis
            by (subst dijkstra_loop.simps) (simp add: Let_def ne nd nv True rl)
        qed
      qed
    qed
  qed
qed

text \<open>What the inner loop of Dijkstra does when every index is in range.\<close>

lemma relax_Inr:
  assumes "length ws = length ns" "\<forall>n\<in>set ns. unat n < length costs"
    "length path = length costs" "unat cur < length costs"
  shows "\<exists>costs' pq' path'. relax cur ns ws costs pq path = Inr (costs', pq', path') \<and>
     length costs' = length costs \<and> length path' = length path \<and>
     (\<forall>i<length costs. (costs' ! i = costs ! i \<and> path' ! i = path ! i) \<or>
        (path' ! i = cur \<and> (\<exists>n\<in>set ns. unat n = i))) \<and>
     set pq \<subseteq> set pq' \<and> (\<forall>(k, v)\<in>set pq'. (k, v) \<in> set pq \<or> v \<in> set ns)"
  using assms
proof (induction cur ns ws costs pq path rule: relax.induct)
  case (1 cur ws costs pq path)
  then show ?case by simp
next
  case (2 cur n ns costs pq path)
  then show ?case by simp
next
  case (3 cur n ns w ws costs pq path)
  let ?c = "costs ! unat cur + w"
  show ?case
  proof (cases "cost_less (costs ! unat cur) w (costs ! unat n)")
    case False
    from "3.IH"(2)[OF _ False] "3.prems" obtain costs' pq' path' where
      *: "relax cur ns ws costs pq path = Inr (costs', pq', path')"
      "length costs' = length costs" "length path' = length path"
      "\<forall>i<length costs. (costs' ! i = costs ! i \<and> path' ! i = path ! i) \<or>
        (path' ! i = cur \<and> (\<exists>n\<in>set ns. unat n = i))"
      "set pq \<subseteq> set pq'" "\<forall>(k, v)\<in>set pq'. (k, v) \<in> set pq \<or> v \<in> set ns"
      by auto
    show ?thesis
      using * False "3.prems" by (simp add: Let_def) blast
  next
    case True
    let ?costs = "costs[unat n := ?c]" and ?path = "path[unat n := cur]"
    let ?pq = "(?costs ! unat n, n) # pq"
    from "3.prems" have n: "unat n < length costs" "unat n < length path" by simp_all
    have "\<exists>costs' pq' path'. relax cur ns ws ?costs ?pq ?path = Inr (costs', pq', path') \<and>
       length costs' = length ?costs \<and> length path' = length ?path \<and>
       (\<forall>i<length ?costs. (costs' ! i = ?costs ! i \<and> path' ! i = ?path ! i) \<or>
          (path' ! i = cur \<and> (\<exists>n\<in>set ns. unat n = i))) \<and>
       set ?pq \<subseteq> set pq' \<and> (\<forall>(k, v)\<in>set pq'. (k, v) \<in> set ?pq \<or> v \<in> set ns)"
      using "3.IH"(1)[OF _ True refl] "3.prems" by simp
    then obtain costs' pq' path' where
      *: "relax cur ns ws ?costs ?pq ?path = Inr (costs', pq', path')"
      "length costs' = length costs" "length path' = length path"
      "\<forall>i<length costs. (costs' ! i = ?costs ! i \<and> path' ! i = ?path ! i) \<or>
        (path' ! i = cur \<and> (\<exists>n\<in>set ns. unat n = i))"
      "set ?pq \<subseteq> set pq'" "\<forall>(k, v)\<in>set pq'. (k, v) \<in> set ?pq \<or> v \<in> set ns"
      by auto
    have a: "(costs' ! i = costs ! i \<and> path' ! i = path ! i) \<or>
        (path' ! i = cur \<and> (\<exists>m\<in>set (n # ns). unat m = i))" if "i < length costs" for i
    proof (cases "i = unat n")
      case True
      with *(4) that n show ?thesis by auto
    next
      case False
      with *(4) that show ?thesis by auto
    qed
    have b: "\<forall>(k, v)\<in>set pq'. (k, v) \<in> set pq \<or> v \<in> set (n # ns)"
      using *(6) by auto
    show ?thesis
      using *(1,2,3,5) a b True "3.prems" n by (simp add: Let_def)
  qed
qed

text \<open>
  The part of the invariant of Dijkstra that keeps every index in range: only nodes
  reachable from \<open>src\<close> are queued, and a node that is not reachable keeps its initial
  predecessor 0 and its initial cost, the maximum.
\<close>

definition dijkstra_safe_inv ::
  "'a::len word Grafo \<Rightarrow> 'a word \<Rightarrow> 'a word list \<Rightarrow> bool list \<Rightarrow> 'a word list \<Rightarrow>
   ('a word \<times> 'a word) list \<Rightarrow> bool" where
  "dijkstra_safe_inv g src path visited costs pq \<longleftrightarrow>
     length path = node_count g \<and> length visited = node_count g \<and> length costs = node_count g \<and>
     (\<forall>(k, v)\<in>set pq. unat v < node_count g \<and> reachable g src v) \<and>
     (\<forall>v. unat v < node_count g \<longrightarrow> \<not> reachable g src v \<longrightarrow>
        path ! unat v = 0 \<and> costs ! unat v = T_max) \<and>
     (\<forall>i<node_count g. unat (path ! i) < node_count g)"

lemma dijkstra_safe_inv_init:
  fixes g :: "'a::len word Grafo"
  assumes src: "unat src < node_count g"
  shows "dijkstra_safe_inv g src (replicate (node_count g) 0) (replicate (node_count g) False)
     ((replicate (node_count g) T_max)[unat src := 0]) [(0, src)]"
proof -
  have "(replicate (node_count g) T_max)[unat src := 0] ! unat v = (T_max :: 'a word)"
    if "unat v < node_count g" "\<not> reachable g src v" for v :: "'a word"
  proof -
    from that(2) have "src \<noteq> v" using reachable_refl[of g src] by auto
    then have "unat src \<noteq> unat v" by (simp add: word_unat_eq_iff)
    then show ?thesis using that(1) by simp
  qed
  then show ?thesis
    using src by (simp add: dijkstra_safe_inv_def reachable_refl)
qed

lemma Min_in_pq: "pq \<noteq> [] \<Longrightarrow> (fst (Min (set pq)), snd (Min (set pq))) \<in> set pq"
  using Min_in[of "set pq"] by simp

lemma dijkstra_safe_inv_relax:
  fixes g :: "'a::len word Grafo"
  assumes wf: "wf_grafo g" and I: "dijkstra_safe_inv g src path visited costs pq"
    and ne: "pq \<noteq> []"
  shows "\<exists>costs' pq' path'.
     relax (snd (Min (set pq))) (adjacency_list g ! unat (snd (Min (set pq))))
       (weights g ! unat (snd (Min (set pq)))) costs (remove1 (Min (set pq)) pq) path
       = Inr (costs', pq', path') \<and>
     dijkstra_safe_inv g src path' (visited[unat (snd (Min (set pq))) := True]) costs' pq'"
proof -
  let ?cur = "snd (Min (set pq))" and ?n = "node_count g"
  let ?ns = "adjacency_list g ! unat ?cur" and ?ws = "weights g ! unat ?cur"
  let ?popped = "remove1 (Min (set pq)) pq"
  from I have lp: "length path = ?n" and lv: "length visited = ?n" and lc: "length costs = ?n"
    and q: "\<forall>(k, v)\<in>set pq. unat v < ?n \<and> reachable g src v"
    and ur: "\<forall>v. unat v < ?n \<longrightarrow> \<not> reachable g src v \<longrightarrow> path ! unat v = 0 \<and> costs ! unat v = T_max"
    and pr: "\<forall>i<?n. unat (path ! i) < ?n"
    by (simp_all add: dijkstra_safe_inv_def)
  from Min_in_pq[OF ne] q have cur: "unat ?cur < ?n" and rc: "reachable g src ?cur" by auto
  note wfc = wf_grafo_nth[OF wf, of "unat ?cur"]
  have nsr: "\<forall>n\<in>set ?ns. unat n < ?n" using wfc cur by (simp add: node_count_def)
  have nb: "reachable g src m" if "m \<in> set ?ns" for m
    using rc that cur by (auto intro: reachable_step simp: has_edge_def node_count_def)
  have "length ?ws = length ?ns" using wfc cur by (simp add: node_count_def)
  moreover have "\<forall>n\<in>set ?ns. unat n < length costs" using nsr lc by simp
  moreover have "length path = length costs" using lp lc by simp
  moreover have "unat ?cur < length costs" using cur lc by simp
  ultimately obtain costs' pq' path' where
    rl: "relax ?cur ?ns ?ws costs ?popped path = Inr (costs', pq', path')"
    and lc': "length costs' = length costs" and lp': "length path' = length path"
    and ch: "\<forall>i<length costs. (costs' ! i = costs ! i \<and> path' ! i = path ! i) \<or>
        (path' ! i = ?cur \<and> (\<exists>n\<in>set ?ns. unat n = i))"
    and q': "\<forall>(k, v)\<in>set pq'. (k, v) \<in> set ?popped \<or> v \<in> set ?ns"
    using relax_Inr[of ?ws ?ns costs path ?cur ?popped] by blast
  have 1: "unat v < ?n \<and> reachable g src v" if "(k, v) \<in> set pq'" for k v
  proof -
    from q' that have "(k, v) \<in> set ?popped \<or> v \<in> set ?ns" by auto
    then show ?thesis
    proof
      assume "(k, v) \<in> set ?popped"
      then have "(k, v) \<in> set pq" by (rule set_remove1_subset[THEN subsetD])
      with q show ?thesis by auto
    next
      assume "v \<in> set ?ns"
      with nsr nb show ?thesis by simp
    qed
  qed
  have 2: "path' ! unat v = 0 \<and> costs' ! unat v = T_max"
    if "unat v < ?n" "\<not> reachable g src v" for v
  proof -
    have "\<not> (\<exists>n\<in>set ?ns. unat n = unat v)"
      using nb that(2) by (metis word_unat_eq_iff)
    with ch that(1) lc have "costs' ! unat v = costs ! unat v \<and> path' ! unat v = path ! unat v"
      by auto
    with ur that show ?thesis by simp
  qed
  have 3: "unat (path' ! i) < ?n" if "i < ?n" for i
    using ch that lc pr cur by auto
  have "dijkstra_safe_inv g src path' (visited[unat ?cur := True]) costs' pq'"
    unfolding dijkstra_safe_inv_def using lp lv lc lc' lp' 1 2 3 by auto
  with rl show ?thesis by blast
qed

lemma dijkstra_loop_safe:
  fixes g :: "'a::len word Grafo"
  assumes wf: "wf_grafo g" and src: "unat src < node_count g"
  shows "\<exists>p c visited' pq'.
     dijkstra_loop g dst (replicate (node_count g) 0) (replicate (node_count g) False)
       ((replicate (node_count g) T_max)[unat src := 0]) [(0, src)] = Some (Inr (p, c)) \<and>
     dijkstra_safe_inv g src p visited' c pq'"
proof -
  have "\<exists>p c visited' pq'.
     dijkstra_loop g dst (replicate (node_count g) 0) (replicate (node_count g) False)
       ((replicate (node_count g) T_max)[unat src := 0]) [(0, src)] = Some (Inr (p, c)) \<and>
     dijkstra_safe_inv g src p visited' c pq' \<and> (pq' = [] \<or> snd (Min (set pq')) = dst)"
  proof (rule dijkstra_loop_total[where I = "dijkstra_safe_inv g src"])
    show "dijkstra_safe_inv g src (replicate (node_count g) 0) (replicate (node_count g) False)
       ((replicate (node_count g) T_max)[unat src := 0]) [(0, src)]"
      using src by (rule dijkstra_safe_inv_init)
  next
    fix path visited costs and pq :: "('a word \<times> 'a word) list"
    assume I: "dijkstra_safe_inv g src path visited costs pq" and ne: "pq \<noteq> []"
    from Min_in_pq[OF ne] I have "unat (snd (Min (set pq))) < node_count g"
      by (auto simp: dijkstra_safe_inv_def)
    with I show "unat (snd (Min (set pq))) < length visited \<and>
       unat (snd (Min (set pq))) < length costs \<and>
       unat (snd (Min (set pq))) < length (adjacency_list g) \<and>
       unat (snd (Min (set pq))) < length (weights g)"
      using wf_grafo_length[OF wf] by (simp add: dijkstra_safe_inv_def node_count_def)
  next
    fix path visited costs and pq :: "('a word \<times> 'a word) list"
    assume I: "dijkstra_safe_inv g src path visited costs pq"
    have "set (remove1 (Min (set pq)) pq) \<subseteq> set pq" by (rule set_remove1_subset)
    with I show "dijkstra_safe_inv g src path visited costs (remove1 (Min (set pq)) pq)"
      unfolding dijkstra_safe_inv_def by blast
  next
    fix path visited costs and pq :: "('a word \<times> 'a word) list"
    assume I: "dijkstra_safe_inv g src path visited costs pq"
    have "set (remove1 (Min (set pq)) pq) \<subseteq> set pq" by (rule set_remove1_subset)
    with I show "dijkstra_safe_inv g src path (visited[unat (snd (Min (set pq))) := True]) costs
        (remove1 (Min (set pq)) pq)"
      unfolding dijkstra_safe_inv_def by (simp add: subset_iff) blast
  next
    fix path visited costs and pq :: "('a word \<times> 'a word) list"
    assume "dijkstra_safe_inv g src path visited costs pq" "pq \<noteq> []"
    with wf show "\<exists>costs' pq' path'.
       relax (snd (Min (set pq))) (adjacency_list g ! unat (snd (Min (set pq))))
         (weights g ! unat (snd (Min (set pq)))) costs (remove1 (Min (set pq)) pq) path
         = Inr (costs', pq', path') \<and>
       dijkstra_safe_inv g src path' (visited[unat (snd (Min (set pq))) := True]) costs' pq'"
      by (rule dijkstra_safe_inv_relax)
  qed
  then show ?thesis by blast
qed

section \<open>The claims on concrete graphs\<close>

lemma main_grafo_built: "add_edges (Grafo 6) main_edges = Inr main_grafo"
  by code_simp

text \<open>
  C6, as the code has it. On the graph of \<^verbatim>\<open>main\<close> (edges 0-1:7, 0-5:14, 1-2:10, 1-3:20,
  2-3:11, 2-5:1, 2-4:3, 4-5:9), \<^verbatim>\<open>dijkstra(0, 3)\<close> returns the cost 26 and the path
  0, 5, 2, 3 (14 + 1 + 11); the path 0, 1, 3 costs 7 + 20 = 27.
\<close>

theorem dijkstra_main_0_3:
  "add_edges (Grafo 6) main_edges = Inr main_grafo \<and>
   dijkstra main_grafo 0 3 = Some (Inr (26, [0, 5, 2, 3])) \<and>
   has_wedge main_grafo 0 1 7 \<and> has_wedge main_grafo 1 3 20"
  by code_simp

text \<open>C6 as stated fails: the cost that \<^verbatim>\<open>dijkstra(0, 3)\<close> returns is not 20.\<close>

theorem dijkstra_main_0_3_cost_not_20:
  "(case dijkstra main_grafo 0 3 of Some (Inr (cost, p)) \<Rightarrow> cost \<noteq> 20 | _ \<Rightarrow> False)"
  by code_simp

text \<open>
  C2 fails on the graph of \<^verbatim>\<open>main\<close>: \<^verbatim>\<open>BFS(0, 3)\<close> returns 0, 5, 2, 3, three edges,
  and 0, 1, 3 is a path of two edges. Node 2 is pushed from node 1 with predecessor 1 and
  pushed again from node 5, which overwrites its predecessor with 5; node 3 is first pushed
  from node 1 and its predecessor is overwritten with 2.
\<close>

theorem bfs_main_0_3_not_shortest:
  "BFS main_grafo 0 3 = Some (Inr [0, 5, 2, 3]) \<and> path_between main_grafo 0 3 [0, 1, 3] \<and>
   length [0 :: 64 word, 1, 3] < length [0 :: 64 word, 5, 2, 3]"
  by code_simp

section \<open>The searches do not read the weights\<close>

text \<open>The edges of \<^verbatim>\<open>main\<close> with other weights, and the graph they build.\<close>

definition unit_edges :: "(64 word \<times> 64 word \<times> 64 word) list" where
  "unit_edges =
     [(0, 1, 1), (0, 5, 1), (1, 2, 1), (1, 3, 1), (2, 3, 1), (2, 5, 1), (2, 4, 1), (4, 5, 100)]"

definition unit_grafo :: "64 word Grafo" where
  "unit_grafo =
     \<lparr>adjacency_list = [[1, 5], [0, 2, 3], [1, 3, 5, 4], [1, 2], [2, 5], [0, 2, 4]],
      weights = [[1, 1], [1, 1, 1], [1, 1, 1, 1], [1, 1], [1, 100], [1, 1, 100]]\<rparr>"

lemma add_edge_adjacency:
  "adjacency_list g1 = adjacency_list g2 \<Longrightarrow> add_edge g1 a b w = Inr g1' \<Longrightarrow>
   add_edge g2 a b w' = Inr g2' \<Longrightarrow> adjacency_list g1' = adjacency_list g2'"
  by (auto simp: add_edge_def Let_def split: if_splits)

lemma add_edges_adjacency:
  "adjacency_list g1 = adjacency_list g2 \<Longrightarrow>
   map (\<lambda>(a, b, w). (a, b)) es = map (\<lambda>(a, b, w). (a, b)) es' \<Longrightarrow>
   add_edges g1 es = Inr g1' \<Longrightarrow> add_edges g2 es' = Inr g2' \<Longrightarrow>
   adjacency_list g1' = adjacency_list g2'"
proof (induction es arbitrary: es' g1 g2)
  case Nil
  then show ?case by simp
next
  case (Cons e es)
  obtain a b w where e: "e = (a, b, w)" by (cases e)
  from Cons.prems(2) obtain e' es'' where es': "es' = e' # es''" by (cases es') auto
  obtain a' b' w' where e': "e' = (a', b', w')" by (cases e')
  from Cons.prems(2) have ab: "a' = a" "b' = b" and tl: "map (\<lambda>(a, b, w). (a, b)) es = map (\<lambda>(a, b, w). (a, b)) es''"
    by (simp_all add: es' e e')
  from Cons.prems(3) obtain h1 where h1: "add_edge g1 a b w = Inr h1" "add_edges h1 es = Inr g1'"
    by (auto simp: e split: sum.splits)
  from Cons.prems(4) obtain h2 where h2: "add_edge g2 a b w' = Inr h2" "add_edges h2 es'' = Inr g2'"
    by (auto simp: es' e' ab split: sum.splits)
  have "adjacency_list h1 = adjacency_list h2"
    using Cons.prems(1) h1(1) h2(1) by (rule add_edge_adjacency)
  from Cons.IH[OF this tl h1(2) h2(2)] show ?case .
qed

text \<open>
  C10. Two graphs built from the same number of nodes by the same sequence of
  \<^verbatim>\<open>add_edge\<close> calls, but for the weights, give the same result of \<^verbatim>\<open>DFS\<close> and of
  \<^verbatim>\<open>BFS\<close> for every query.
\<close>

theorem search_ignores_weights:
  assumes "map (\<lambda>(a, b, w). (a, b)) es = map (\<lambda>(a, b, w). (a, b)) es'"
    and "add_edges (Grafo n) es = Inr g" and "add_edges (Grafo n) es' = Inr g'"
  shows "DFS g src dst = DFS g' src dst \<and> BFS g src dst = BFS g' src dst"
proof -
  have "adjacency_list g = adjacency_list g'"
    using _ assms by (rule add_edges_adjacency) (simp add: Grafo_def)
  then show ?thesis by (simp add: DFS_def BFS_def search_def)
qed

theorem search_ignores_weights_witness:
  "map (\<lambda>(a, b, w). (a, b)) main_edges = map (\<lambda>(a, b, w). (a, b)) unit_edges \<and>
   add_edges (Grafo 6) main_edges = Inr main_grafo \<and>
   add_edges (Grafo 6) unit_edges = Inr unit_grafo \<and>
   DFS main_grafo 0 3 = DFS unit_grafo 0 3 \<and> BFS main_grafo 0 3 = BFS unit_grafo 0 3"
proof -
  have 1: "map (\<lambda>(a, b, w). (a, b)) main_edges = map (\<lambda>(a, b, w). (a, b)) unit_edges"
    by (simp add: main_edges_def unit_edges_def)
  have 2: "add_edges (Grafo 6) main_edges = Inr main_grafo"
    by (rule main_grafo_built)
  have 3: "add_edges (Grafo 6) unit_edges = Inr unit_grafo"
    by code_simp
  from search_ignores_weights[OF 1 2 3, of 0 3]
  have 4: "DFS main_grafo 0 3 = DFS unit_grafo 0 3" and 5: "BFS main_grafo 0 3 = BFS unit_grafo 0 3"
    by (rule conjunct1, rule conjunct2)
  show ?thesis by (intro conjI) (fact 1 2 3 4 5)+
qed

section \<open>When a predecessor is overwritten\<close>

lemma visit_adjacent_path:
  "visit_adjacent push current ns visited path to_visit = Inr (path', to_visit') \<Longrightarrow>
   length path' = length path \<and>
   (\<forall>i<length path. path' ! i =
      (if (\<exists>n\<in>set ns. unat n = i) \<and> \<not> visited ! i then current else path ! i))"
proof (induction ns arbitrary: path to_visit)
  case Nil
  then show ?case by simp
next
  case (Cons n ns)
  show ?case
  proof (cases "visited ! unat n")
    case True
    with Cons.prems have "visit_adjacent push current ns visited path to_visit = Inr (path', to_visit')"
      by (simp split: if_splits)
    from Cons.IH[OF this] True show ?thesis by auto
  next
    case False
    with Cons.prems have n: "unat n < length path"
      and "visit_adjacent push current ns visited (path[unat n := current]) (push n to_visit)
             = Inr (path', to_visit')"
      by (simp_all split: if_splits)
    from Cons.IH[OF this(2)] have l: "length path' = length path"
      and *: "\<forall>i<length path. path' ! i =
        (if (\<exists>n\<in>set ns. unat n = i) \<and> \<not> visited ! i then current
         else path[unat n := current] ! i)"
      by simp_all
    have "path' ! i = (if (\<exists>m\<in>set (n # ns). unat m = i) \<and> \<not> visited ! i then current else path ! i)"
      if "i < length path" for i
    proof (cases "i = unat n")
      case True
      with * that False show ?thesis by simp
    next
      case neq: False
      then have "path[unat n := current] ! i = path ! i" by simp
      moreover from neq have "(\<exists>m\<in>set (n # ns). unat m = i) = (\<exists>m\<in>set ns. unat m = i)" by auto
      ultimately show ?thesis using * that by simp
    qed
    with l show ?thesis by simp
  qed
qed

lemma search_loop_keeps_visited:
  "search_loop push adj dst path visited to_visit = Some (Inr path') \<Longrightarrow>
   length visited = length path \<Longrightarrow>
   length path' = length path \<and> (\<forall>i<length visited. visited ! i \<longrightarrow> path' ! i = path ! i)"
proof (induction path visited to_visit rule: search_loop_induct[where dst = dst and adj = adj and push = push])
  case (step path visited to_visit)
  show ?case
  proof (cases to_visit)
    case Nil
    with step.prems show ?thesis by (simp add: search_loop.simps)
  next
    case (Cons current rest)
    note unfold = step.prems(1)[unfolded Cons, simplified search_loop.simps[of _ _ _ _ _ "current # rest"]]
    show ?thesis
    proof (cases "current = dst")
      case True
      with unfold show ?thesis by simp
    next
      case nd: False
      show ?thesis
      proof (cases "unat current < length visited")
        case False
        with unfold nd show ?thesis by simp
      next
        case r: True
        show ?thesis
        proof (cases "visited ! unat current")
          case True
          with unfold nd r have "search_loop push adj dst path visited rest = Some (Inr path')"
            by simp
          from step.IH(1)[OF Cons nd r True this step.prems(2)] show ?thesis .
        next
          case nv: False
          let ?V = "visited[unat current := True]"
          from unfold nd r nv obtain p1 tv1 where
            va: "visit_adjacent push current (adj ! unat current) ?V path rest = Inr (p1, tv1)"
            and lo: "search_loop push adj dst p1 ?V tv1 = Some (Inr path')"
            and ra: "unat current < length adj"
            by (auto split: if_splits sum.splits)
          from visit_adjacent_path[OF va] have l1: "length p1 = length path"
            and k1: "\<forall>i<length path. ?V ! i \<longrightarrow> p1 ! i = path ! i"
            by simp_all
          from step.IH(2)[OF Cons nd r nv ra va lo] l1 step.prems(2)
          have l': "length path' = length p1"
            and k': "\<forall>i<length ?V. ?V ! i \<longrightarrow> path' ! i = p1 ! i"
            by simp_all
          have "path' ! i = path ! i" if "i < length visited" "visited ! i" for i
          proof -
            from that r have "?V ! i" by (simp add: nth_list_update)
            with k' k1 that(1) step.prems(2) show ?thesis by simp
          qed
          with l' l1 show ?thesis by simp
        qed
      qed
    qed
  qed
qed

text \<open>
  C4, as the code has it. In \<^verbatim>\<open>DFS\<close> the inner loop writes \<open>current\<close> as the predecessor
  of every neighbour that is not marked visited, whether the neighbour already has a
  predecessor or not, and of no other node: a node is marked visited when it is taken from
  the stack, not when it is pushed, and a rediscovery before that overwrites its
  predecessor. In \<^verbatim>\<open>DFS\<close> and in \<^verbatim>\<open>BFS\<close>, the predecessor of a node that is marked
  visited is never overwritten, up to the end of the loop.
\<close>

theorem predecessor_fixed_once_visited:
  "(visit_adjacent stack_push current ns visited path to_visit = Inr (path', to_visit') \<longrightarrow>
      (\<forall>i<length path. path' ! i =
         (if (\<exists>n\<in>set ns. unat n = i) \<and> \<not> visited ! i then current else path ! i))) \<and>
   (search_loop push adj dst p v tv = Some (Inr final) \<longrightarrow> length v = length p \<longrightarrow>
      (\<forall>i<length v. v ! i \<longrightarrow> final ! i = p ! i))"
  using visit_adjacent_path[of stack_push current ns visited path to_visit path' to_visit']
    search_loop_keeps_visited[of push adj dst p v tv final]
  by blast

text \<open>
  In \<^verbatim>\<open>DFS(0, 1)\<close> on the triangle, after the first iteration node 0 is visited, nodes 1
  and 2 have the predecessor 0 and the stack is 2, 1. The second iteration takes node 2,
  finds node 1 not visited and overwrites its predecessor with 2; the predecessor of node
  0 stays as it is.
\<close>

theorem predecessor_fixed_once_visited_witness:
  "visit_adjacent stack_push 2 [0, 1] [True, False, True] [T_max, 0, 0] [1 :: 64 word]
     = Inr ([T_max, 2, 0], [1, 1]) \<and>
   [T_max, 2, 0 :: 64 word] ! 1 = 2 \<and>
   search_loop stack_push (adjacency_list triangle) 1 [T_max, 0, 0] [True, False, False] [2, 1]
     = Some (Inr [T_max, 2, 0]) \<and>
   [T_max, 2, 0 :: 64 word] ! 0 = [T_max, 0, 0] ! 0"
proof -
  have 1: "visit_adjacent stack_push 2 [0, 1] [True, False, True] [T_max, 0, 0] [1 :: 64 word]
     = Inr ([T_max, 2, 0], [1, 1])"
    by code_simp
  have 2: "search_loop stack_push (adjacency_list triangle) 1 [T_max, 0, 0] [True, False, False] [2, 1]
     = Some (Inr [T_max, 2, 0])"
    by code_simp
  note t = predecessor_fixed_once_visited[where push = stack_push and current = 2 and ns = "[0, 1]"
      and visited = "[True, False, True]" and path = "[T_max, 0, 0]" and to_visit = "[1]"
      and path' = "[T_max, 2, 0]" and to_visit' = "[1, 1]" and adj = "adjacency_list triangle"
      and dst = 1 and final = "[T_max, 2, 0]" and p = "[T_max, 0, 0]"
      and v = "[True, False, False]" and tv = "[2, 1]"]
  from t[THEN conjunct1, rule_format, OF 1, of 1]
  have 3: "[T_max, 2, 0 :: 64 word] ! 1 = 2" by simp
  from t[THEN conjunct2, rule_format, OF 2, of 0]
  have 4: "[T_max, 2, 0 :: 64 word] ! 0 = [T_max, 0, 0] ! 0" by simp
  show ?thesis by (intro conjI) (fact 1 2 3 4)+
qed

theorem dfs_triangle_overwrites:
  "search_loop stack_push (adjacency_list triangle) 1 [T_max, T_max, T_max] [False, False, False] [0]
     = search_loop stack_push (adjacency_list triangle) 1 [T_max, 0, 0] [True, False, False] [2, 1] \<and>
   search_loop stack_push (adjacency_list triangle) 1 [T_max, 0, 0] [True, False, False] [2, 1]
     = Some (Inr [T_max, 2, 0]) \<and>
   DFS triangle 0 1 = Some (Inr [0, 2, 1])"
proof -
  have "search_loop stack_push (adjacency_list triangle) 1 [T_max, T_max, T_max] [False, False, False] [0]
     = search_loop stack_push (adjacency_list triangle) 1 [T_max, 0, 0] [True, False, False] [2, 1]"
    by (subst search_loop.simps) (simp add: triangle_def stack_push_def)
  moreover have "search_loop stack_push (adjacency_list triangle) 1 [T_max, 0, 0] [True, False, False] [2, 1]
     = Some (Inr [T_max, 2, 0])"
    by code_simp
  moreover have "DFS triangle 0 1 = Some (Inr [0, 2, 1])"
    by code_simp
  ultimately show ?thesis by blast
qed

section \<open>The reconstruction\<close>

text \<open>When the reconstruction returns, it returns a sequence that ends with what it was given.\<close>

lemma reconstruct_shape:
  assumes r: "reconstruct path src node acc = Some r"
    and p: "\<forall>i<length path. unat (path ! i) < length path" and n: "unat node < length path"
  shows "\<exists>pre. r = Inr (pre @ node # acc)"
proof -
  have "(\<forall>i<length path. unat (path ! i) < length path) \<longrightarrow> unat node < length path \<longrightarrow>
     (\<exists>pre. r = Inr (pre @ node # acc))"
  proof (rule reconstruct.raw_induct[OF _ r, where P = "\<lambda>path src node acc r.
      (\<forall>i<length path. unat (path ! i) < length path) \<longrightarrow> unat node < length path \<longrightarrow>
      (\<exists>pre. r = Inr (pre @ node # acc))"], intro impI)
    fix f path src and node :: "'a word" and acc r
    assume ih: "\<And>path src node acc r. f path src node acc = Some r \<Longrightarrow>
        (\<forall>i<length path. unat (path ! i) < length path) \<longrightarrow> unat node < length path \<longrightarrow>
        (\<exists>pre. r = Inr (pre @ node # acc))"
      and eq: "(if node \<noteq> src then
          if unat node < length path then f path src (path ! unat node) (node # acc)
          else Some (Inl OutOfBounds)
        else Some (Inr (src # acc))) = Some r"
      and p: "\<forall>i<length path. unat (path ! i) < length path" and n: "unat node < length path"
    show "\<exists>pre. r = Inr (pre @ node # acc)"
    proof (cases "node = src")
      case True
      with eq show ?thesis by auto
    next
      case False
      with eq n have "f path src (path ! unat node) (node # acc) = Some r" by simp
      from ih[OF this] p n obtain pre where "r = Inr (pre @ path ! unat node # node # acc)"
        by auto
      then have "r = Inr ((pre @ [path ! unat node]) @ node # acc)" by simp
      then show ?thesis by blast
    qed
  qed
  with p n show ?thesis by blast
qed

text \<open>
  The predecessors 0, 0, 0 with \<open>src = 1\<close>: from node 0 the reconstruction goes to node 0
  again and never reaches \<open>src\<close>.
\<close>

lemma reconstruct_diverges: "reconstruct [0, 0, 0 :: 64 word] 1 0 acc = None"
proof (cases "reconstruct [0, 0, 0 :: 64 word] 1 0 acc")
  case None
  then show ?thesis .
next
  case (Some r)
  have "\<not> (path = [0, 0, 0 :: 64 word] \<and> src = 1 \<and> node = 0)"
    if "reconstruct path src node acc = Some r" for path src node acc r
  proof (rule reconstruct.raw_induct[OF _ that, where P = "\<lambda>path src node acc r.
      \<not> (path = [0, 0, 0 :: 64 word] \<and> src = 1 \<and> node = 0)"])
    fix f path src and node :: "64 word" and acc r
    assume ih: "\<And>path src node acc r. f path src node acc = Some r \<Longrightarrow>
        \<not> (path = [0, 0, 0 :: 64 word] \<and> src = 1 \<and> node = 0)"
      and eq: "(if node \<noteq> src then
          if unat node < length path then f path src (path ! unat node) (node # acc)
          else Some (Inl OutOfBounds)
        else Some (Inr (src # acc))) = Some r"
    show "\<not> (path = [0, 0, 0 :: 64 word] \<and> src = 1 \<and> node = 0)"
    proof
      assume a: "path = [0, 0, 0 :: 64 word] \<and> src = 1 \<and> node = 0"
      with eq have "f path src node (node # acc) = Some r" by simp
      from ih[OF this] a show False by simp
    qed
  qed
  from this[OF Some] show ?thesis by simp
qed

section \<open>Termination of the three loops\<close>

text \<open>
  C9. On a graph built by the constructor and \<^verbatim>\<open>add_edge\<close> and for a node id \<open>src\<close> of the
  graph, the main loop of \<^verbatim>\<open>DFS\<close>, of \<^verbatim>\<open>BFS\<close> and of \<^verbatim>\<open>dijkstra\<close> ends, for every \<open>dst\<close>,
  and ends without an access out of bounds. Each iteration either takes a node that is
  already visited from the frontier, which gets shorter, or marks one more node visited:
  the pair (number of nodes not visited, length of the frontier) decreases in the
  lexicographic order. The loops end from every state, the initial one or not.
\<close>

theorem search_loops_terminate:
  fixes g :: "'a::len word Grafo"
  assumes "wf_grafo g" and "unat src < node_count g"
  shows "(\<exists>path. search_loop stack_push (adjacency_list g) dst (replicate (node_count g) T_max)
            (replicate (node_count g) False) [src] = Some (Inr path)) \<and>
         (\<exists>path. search_loop queue_push (adjacency_list g) dst (replicate (node_count g) T_max)
            (replicate (node_count g) False) [src] = Some (Inr path)) \<and>
         (\<exists>path costs. dijkstra_loop g dst (replicate (node_count g) 0)
            (replicate (node_count g) False) ((replicate (node_count g) T_max)[unat src := 0])
            [(0, src)] = Some (Inr (path, costs))) \<and>
         (\<exists>r. search_loop stack_push adj dst p v to_visit = Some r) \<and>
         (\<exists>r. search_loop queue_push adj dst p v to_visit = Some r) \<and>
         (\<exists>r. dijkstra_loop g dst p v costs pq = Some r)"
proof -
  from search_loop_correct[of stack_push g src dst, OF stack_push_set assms]
  have 1: "\<exists>path. search_loop stack_push (adjacency_list g) dst (replicate (node_count g) T_max)
            (replicate (node_count g) False) [src] = Some (Inr path)"
    by blast
  from search_loop_correct[of queue_push g src dst, OF queue_push_set assms]
  have 2: "\<exists>path. search_loop queue_push (adjacency_list g) dst (replicate (node_count g) T_max)
            (replicate (node_count g) False) [src] = Some (Inr path)"
    by blast
  from dijkstra_loop_safe[OF assms, of dst]
  have 3: "\<exists>path costs. dijkstra_loop g dst (replicate (node_count g) 0)
            (replicate (node_count g) False) ((replicate (node_count g) T_max)[unat src := 0])
            [(0, src)] = Some (Inr (path, costs))"
    by blast
  show ?thesis
    using 1 2 3 search_loop_returns[of stack_push adj dst p v to_visit]
      search_loop_returns[of queue_push adj dst p v to_visit]
      dijkstra_loop_returns[of g dst p v costs pq]
    by (intro conjI)
qed

lemma wf_main_grafo: "wf_grafo main_grafo"
  by code_simp

theorem search_loops_terminate_witness:
  "wf_grafo main_grafo \<and> unat (0 :: 64 word) < node_count main_grafo \<and>
   (\<exists>path. search_loop stack_push (adjacency_list main_grafo) 3 (replicate (node_count main_grafo) T_max)
      (replicate (node_count main_grafo) False) [0] = Some (Inr path)) \<and>
   (\<exists>path. search_loop queue_push (adjacency_list main_grafo) 3 (replicate (node_count main_grafo) T_max)
      (replicate (node_count main_grafo) False) [0] = Some (Inr path)) \<and>
   (\<exists>path costs. dijkstra_loop main_grafo 3 (replicate (node_count main_grafo) 0)
      (replicate (node_count main_grafo) False)
      ((replicate (node_count main_grafo) T_max)[unat (0 :: 64 word) := 0]) [(0, 0)]
      = Some (Inr (path, costs)))"
proof -
  have 1: "wf_grafo main_grafo" by (rule wf_main_grafo)
  have 2: "unat (0 :: 64 word) < node_count main_grafo" by code_simp
  from search_loops_terminate[OF 1 2, of 3] 1 2 show ?thesis by blast
qed

section \<open>Node ids out of range\<close>

lemma unat_max64: "unat (- 1 :: 64 word) = 18446744073709551615"
  by (simp add: unsigned_minus_1_eq_mask mask_eq_exp_minus_1)

lemma relax_lengths:
  "relax cur ns ws costs pq path = Inr (costs', pq', path') \<Longrightarrow>
   length costs' = length costs \<and> length path' = length path"
  by (induction cur ns ws costs pq path rule: relax.induct)
     (auto simp: Let_def split: if_splits)

lemma dijkstra_loop_lengths:
  "dijkstra_loop g dst path visited costs pq = Some (Inr (p, c)) \<Longrightarrow>
   length p = length path \<and> length c = length costs"
proof (induction path visited costs pq rule: dijkstra_loop_induct[where dst = dst and g = g])
  case (step path visited costs pq)
  let ?cur = "snd (Min (set pq))"
  show ?case
  proof (cases "pq = []")
    case True
    with step.prems show ?thesis by (simp add: dijkstra_loop.simps)
  next
    case ne: False
    note unfold = step.prems[unfolded dijkstra_loop.simps[of _ _ _ _ _ pq], simplified ne Let_def if_False]
    show ?thesis
    proof (cases "?cur = dst")
      case True
      with unfold show ?thesis by simp
    next
      case nd: False
      show ?thesis
      proof (cases "unat ?cur < length visited")
        case False
        with unfold nd show ?thesis by simp
      next
        case r: True
        show ?thesis
        proof (cases "visited ! unat ?cur")
          case True
          with unfold nd r have "dijkstra_loop g dst path visited costs (remove1 (Min (set pq)) pq)
              = Some (Inr (p, c))"
            by simp
          from step.IH(1)[OF ne nd r True this] show ?thesis .
        next
          case nv: False
          show ?thesis
          proof (cases "unat ?cur < length costs \<and> fst (Min (set pq)) \<noteq> costs ! unat ?cur")
            case True
            with unfold nd r nv have "dijkstra_loop g dst path (visited[unat ?cur := True]) costs
                (remove1 (Min (set pq)) pq) = Some (Inr (p, c))"
              by simp
            from step.IH(2)[OF ne nd r nv this] show ?thesis .
          next
            case False
            with unfold nd r nv obtain c1 pq1 p1 where
              rl: "relax ?cur (adjacency_list g ! unat ?cur) (weights g ! unat ?cur) costs
                     (remove1 (Min (set pq)) pq) path = Inr (c1, pq1, p1)"
              and lo: "dijkstra_loop g dst p1 (visited[unat ?cur := True]) c1 pq1 = Some (Inr (p, c))"
              by (auto split: if_splits sum.splits)
            from step.IH(3)[OF ne nd r nv rl lo] relax_lengths[OF rl] show ?thesis by simp
          qed
        qed
      qed
    qed
  qed
qed

lemma error_is_OutOfBounds: "(e :: error) = OutOfBounds"
  by (cases e) simp

lemma search_same: "search push g s s = Some (Inr [s])"
proof -
  have "search_loop push (adjacency_list g) s (replicate (length (adjacency_list g)) T_max)
      (replicate (length (adjacency_list g)) False) [s]
    = Some (Inr (replicate (length (adjacency_list g)) T_max))"
    by (subst search_loop.simps) simp
  moreover have "reconstruct (replicate (length (adjacency_list g)) T_max) s s [] = Some (Inr [s])"
    by (subst reconstruct.simps) simp
  ultimately show ?thesis by (simp add: search_def)
qed

lemma search_out_of_range:
  assumes ne: "src \<noteq> dst" and oor: "\<not> (unat src < node_count g \<and> unat dst < node_count g)"
  shows "search push g src dst = Some (Inl OutOfBounds)"
proof (cases "unat src < node_count g")
  case False
  then have "search_loop push (adjacency_list g) dst (replicate (node_count g) T_max)
      (replicate (node_count g) False) [src] = Some (Inl OutOfBounds)"
    using ne by (subst search_loop.simps) simp
  then show ?thesis by (simp add: search_def node_count_def)
next
  case True
  with oor have d: "\<not> unat dst < node_count g" by simp
  let ?loop = "search_loop push (adjacency_list g) dst (replicate (node_count g) T_max)
      (replicate (node_count g) False) [src]"
  from search_loop_returns[of push "adjacency_list g" dst "replicate (node_count g) T_max"
      "replicate (node_count g) False" "[src]"]
  obtain r where r: "?loop = Some r" by blast
  show ?thesis
  proof (cases r)
    case (Inl e)
    with r show ?thesis using error_is_OutOfBounds[of e] by (simp add: search_def node_count_def)
  next
    case (Inr p)
    with r have "?loop = Some (Inr p)" by simp
    from search_loop_keeps_visited[OF this] have lp: "length p = node_count g" by simp
    have "reconstruct p src dst [] = Some (Inl OutOfBounds)"
      using ne d lp by (subst reconstruct.simps) auto
    with r Inr show ?thesis by (simp add: search_def node_count_def)
  qed
qed

lemma dijkstra_out_of_range:
  assumes oor: "\<not> (unat src < node_count g \<and> unat dst < node_count g)"
  shows "dijkstra g src dst = Some (Inl OutOfBounds)"
proof (cases "unat src < node_count g")
  case False
  then show ?thesis by (simp add: dijkstra_def node_count_def)
next
  case True
  with oor have d: "\<not> unat dst < node_count g" by simp
  with True have ne: "dst \<noteq> src" by auto
  let ?loop = "dijkstra_loop g dst (replicate (node_count g) 0) (replicate (node_count g) False)
      ((replicate (node_count g) T_max)[unat src := 0]) [(0, src)]"
  from dijkstra_loop_returns[of g dst "replicate (node_count g) 0" "replicate (node_count g) False"
      "(replicate (node_count g) T_max)[unat src := 0]" "[(0, src)]"]
  obtain r where r: "?loop = Some r" by blast
  show ?thesis
  proof (cases r)
    case (Inl e)
    with r True show ?thesis
      using error_is_OutOfBounds[of e] by (simp add: dijkstra_def node_count_def)
  next
    case (Inr pc)
    obtain p c where pc: "pc = (p, c)" by (cases pc)
    with r Inr have "?loop = Some (Inr (p, c))" by simp
    from dijkstra_loop_lengths[OF this] have lp: "length p = node_count g" by simp
    have "reconstruct p src dst [] = Some (Inl OutOfBounds)"
      using ne d lp by (subst reconstruct.simps) auto
    with r Inr pc True show ?thesis by (simp add: dijkstra_def node_count_def)
  qed
qed

text \<open>
  C8, as the code has it. The source checks no node id and has no failure
  \<^verbatim>\<open>OutOfRange\<close>. On a graph with \<open>n\<close> nodes, \<^verbatim>\<open>add_edge\<close> indexes a vector out of bounds
  (undefined behaviour in the source, \<open>OutOfBounds\<close> here) exactly when one of its node ids
  is not below \<open>n\<close>; \<^verbatim>\<open>DFS(s, s)\<close> and \<^verbatim>\<open>BFS(s, s)\<close> return the sequence \<open>s\<close> for
  every \<open>s\<close>, a node of the graph or not, without any access; with \<open>src \<noteq> dst\<close> and a node
  id not below \<open>n\<close>, \<^verbatim>\<open>DFS\<close> and \<^verbatim>\<open>BFS\<close> index a vector out of bounds, and so does
  \<^verbatim>\<open>dijkstra\<close> with a node id not below \<open>n\<close>.
\<close>

theorem no_range_check:
  fixes g :: "'a::len word Grafo"
  assumes "wf_grafo g"
  shows "(add_edge g a b w = Inl OutOfBounds \<longleftrightarrow>
            \<not> (unat a < node_count g \<and> unat b < node_count g)) \<and>
         DFS g s s = Some (Inr [s]) \<and> BFS g s s = Some (Inr [s]) \<and>
         (src \<noteq> dst \<longrightarrow> \<not> (unat src < node_count g \<and> unat dst < node_count g) \<longrightarrow>
            DFS g src dst = Some (Inl OutOfBounds) \<and> BFS g src dst = Some (Inl OutOfBounds)) \<and>
         (\<not> (unat src < node_count g \<and> unat dst < node_count g) \<longrightarrow>
            dijkstra g src dst = Some (Inl OutOfBounds))"
proof -
  have "add_edge g a b w = Inl OutOfBounds \<longleftrightarrow>
      \<not> (unat a < node_count g \<and> unat b < node_count g)"
    using wf_grafo_length[OF assms] by (auto simp: add_edge_def Let_def node_count_def)
  then show ?thesis
    using search_same[of stack_push g s] search_same[of queue_push g s]
      search_out_of_range[of src dst g stack_push] search_out_of_range[of src dst g queue_push]
      dijkstra_out_of_range[of src g dst]
    by (simp add: DFS_def BFS_def)
qed

theorem no_range_check_witness:
  "wf_grafo (Grafo 2 :: 64 word Grafo) \<and>
   add_edge (Grafo 2 :: 64 word Grafo) 7 0 1 = Inl OutOfBounds \<and>
   DFS (Grafo 2) 7 7 = Some (Inr [7 :: 64 word]) \<and>
   BFS (Grafo 2) 7 7 = Some (Inr [7 :: 64 word]) \<and>
   DFS (Grafo 2) 0 (7 :: 64 word) = Some (Inl OutOfBounds) \<and>
   BFS (Grafo 2) 0 (7 :: 64 word) = Some (Inl OutOfBounds) \<and>
   dijkstra (Grafo 2) 0 (7 :: 64 word) = Some (Inl OutOfBounds)"
proof -
  have 1: "wf_grafo (Grafo 2 :: 64 word Grafo)" by (rule wf_grafo_Grafo)
  have 2: "\<not> (unat (7 :: 64 word) < node_count (Grafo 2 :: 64 word Grafo) \<and>
      unat (0 :: 64 word) < node_count (Grafo 2 :: 64 word Grafo))"
    by (simp add: node_count_def Grafo_def)
  have 3: "\<not> (unat (0 :: 64 word) < node_count (Grafo 2 :: 64 word Grafo) \<and>
      unat (7 :: 64 word) < node_count (Grafo 2 :: 64 word Grafo))"
    by (simp add: node_count_def Grafo_def)
  have 4: "(0 :: 64 word) \<noteq> 7" by simp
  from no_range_check[OF 1, of 7 0 1 7 0 7] 1 2 3 4 show ?thesis by blast
qed

text \<open>
  C8 as stated fails in both directions: \<^verbatim>\<open>DFS(7, 7)\<close> on a graph of two nodes returns
  the sequence 7 and no failure, and \<^verbatim>\<open>DFS(0, 1)\<close> on the same graph, with both node ids in
  range, indexes \<open>path\<close> out of bounds.
\<close>

theorem dfs_out_of_range_returns:
  "\<not> unat (7 :: 64 word) < node_count (Grafo 2 :: 64 word Grafo) \<and>
   DFS (Grafo 2) 7 7 = Some (Inr [7 :: 64 word]) \<and>
   unat (0 :: 64 word) < node_count (Grafo 2 :: 64 word Grafo) \<and>
   unat (1 :: 64 word) < node_count (Grafo 2 :: 64 word Grafo) \<and>
   DFS (Grafo 2) 0 (1 :: 64 word) = Some (Inl OutOfBounds)"
  by (simp add: DFS_def search_def Grafo_def node_count_def search_loop.simps reconstruct.simps
      T_max_def stack_push_def unat_max64)

section \<open>A destination that is not reachable\<close>

lemma dijkstra_unreachable:
  fixes g :: "'a::len word Grafo"
  assumes wf: "wf_grafo g" and src: "unat src < node_count g" and dst: "unat dst < node_count g"
    and r: "\<not> reachable g src dst"
  shows "(\<forall>r. dijkstra g src dst = Some r \<longrightarrow> (\<exists>pre. r = Inr (T_max, pre @ [0, dst]))) \<and>
         (src = 0 \<longrightarrow> dijkstra g src dst = Some (Inr (T_max, [0, dst])))"
proof -
  let ?n = "node_count g"
  from dijkstra_loop_safe[OF wf src, of dst] obtain p c visited' pq' where
    loop: "dijkstra_loop g dst (replicate ?n 0) (replicate ?n False)
       ((replicate ?n T_max)[unat src := 0]) [(0, src)] = Some (Inr (p, c))"
    and I: "dijkstra_safe_inv g src p visited' c pq'"
    by blast
  from I have lp: "length p = ?n" and lc: "length c = ?n"
    and ur: "\<forall>v. unat v < ?n \<longrightarrow> \<not> reachable g src v \<longrightarrow> p ! unat v = 0 \<and> c ! unat v = T_max"
    and pr: "\<forall>i<?n. unat (p ! i) < ?n"
    by (simp_all add: dijkstra_safe_inv_def)
  from ur dst r have pd: "p ! unat dst = 0" and cd: "c ! unat dst = T_max" by simp_all
  from r have ne: "dst \<noteq> src" using reachable_refl by auto
  have rec: "reconstruct p src dst [] = reconstruct p src 0 [dst]"
    using ne dst lp pd by (subst reconstruct.simps) simp
  have dj: "dijkstra g src dst =
      (case reconstruct p src 0 [dst] of None \<Rightarrow> None | Some (Inl e) \<Rightarrow> Some (Inl e)
       | Some (Inr rp) \<Rightarrow> Some (Inr (T_max, rp)))"
    using loop src dst lc cd rec
    by (simp add: dijkstra_def node_count_def split: option.splits sum.splits)
  have a: "\<exists>pre. x = Inr (T_max, pre @ [0, dst])" if "dijkstra g src dst = Some x" for x
  proof (cases "reconstruct p src 0 [dst]")
    case None
    with dj that show ?thesis by simp
  next
    case (Some rr)
    have "unat (0 :: 'a word) < length p" using src lp by simp
    from reconstruct_shape[OF Some _ this] pr lp obtain pre where "rr = Inr (pre @ [0, dst])"
      by auto
    with dj that Some show ?thesis by auto
  qed
  have b: "dijkstra g src dst = Some (Inr (T_max, [0, dst]))" if "src = 0"
  proof -
    have "reconstruct p src 0 [dst] = Some (Inr [0, dst])"
      using that by (subst reconstruct.simps) simp
    with dj show ?thesis by simp
  qed
  from a b show ?thesis by blast
qed

text \<open>
  C5, as the code has it. The source has no failure \<^verbatim>\<open>NoPathFound\<close>. For a graph built by
  the constructor and \<^verbatim>\<open>add_edge\<close> with less than \<open>2 ^ LENGTH('a)\<close> nodes, node ids \<open>src\<close> and
  \<open>dst\<close> of the graph and \<open>dst\<close> not reachable from \<open>src\<close>: the main loops end (C9);
  \<^verbatim>\<open>DFS\<close> and \<^verbatim>\<open>BFS\<close> then go from \<open>dst\<close> to its predecessor, still the maximum of \<open>T\<close>, and
  index \<open>path\<close> there, out of bounds; \<^verbatim>\<open>dijkstra\<close> goes from \<open>dst\<close> to its predecessor,
  still 0, and, when it returns, returns the maximum of \<open>T\<close> as the cost and a sequence
  that ends with 0, \<open>dst\<close>; with \<open>src = 0\<close> it returns the sequence 0, \<open>dst\<close>.
\<close>

theorem unreachable_destination:
  fixes g :: "'a::len word Grafo"
  assumes "wf_grafo g" and "unat src < node_count g" and "unat dst < node_count g"
    and "\<not> reachable g src dst" and "node_count g < 2 ^ LENGTH('a)"
  shows "DFS g src dst = Some (Inl OutOfBounds) \<and> BFS g src dst = Some (Inl OutOfBounds) \<and>
         (\<forall>r. dijkstra g src dst = Some r \<longrightarrow> (\<exists>pre. r = Inr (T_max, pre @ [0, dst]))) \<and>
         (src = 0 \<longrightarrow> dijkstra g src dst = Some (Inr (T_max, [0, dst])))"
  using search_unreachable[of stack_push g src dst, OF stack_push_set assms]
    search_unreachable[of queue_push g src dst, OF queue_push_set assms]
    dijkstra_unreachable[OF assms(1-4)]
  by (simp add: DFS_def BFS_def)

lemma no_edge_Grafo: "\<not> has_edge (Grafo n) u v"
  by (simp add: has_edge_def Grafo_def)

lemma unreachable_Grafo: "u \<noteq> v \<Longrightarrow> \<not> reachable (Grafo n) u v"
  using reachable_closed[of "Grafo n" u v "{u}"] no_edge_Grafo by auto

theorem unreachable_destination_witness:
  "wf_grafo (Grafo 2 :: 64 word Grafo) \<and>
   unat (0 :: 64 word) < node_count (Grafo 2 :: 64 word Grafo) \<and>
   unat (1 :: 64 word) < node_count (Grafo 2 :: 64 word Grafo) \<and>
   \<not> reachable (Grafo 2 :: 64 word Grafo) 0 1 \<and>
   node_count (Grafo 2 :: 64 word Grafo) < 2 ^ LENGTH(64) \<and>
   DFS (Grafo 2) 0 (1 :: 64 word) = Some (Inl OutOfBounds) \<and>
   BFS (Grafo 2) 0 (1 :: 64 word) = Some (Inl OutOfBounds) \<and>
   dijkstra (Grafo 2) 0 (1 :: 64 word) = Some (Inr (T_max, [0, 1]))"
proof -
  have 1: "wf_grafo (Grafo 2 :: 64 word Grafo)" by (rule wf_grafo_Grafo)
  have 2: "unat (0 :: 64 word) < node_count (Grafo 2 :: 64 word Grafo)"
    by (simp add: node_count_def Grafo_def)
  have 3: "unat (1 :: 64 word) < node_count (Grafo 2 :: 64 word Grafo)"
    by (simp add: node_count_def Grafo_def)
  have 4: "\<not> reachable (Grafo 2 :: 64 word Grafo) 0 1"
    by (rule unreachable_Grafo) simp
  have 5: "node_count (Grafo 2 :: 64 word Grafo) < 2 ^ LENGTH(64)"
    by (simp add: node_count_def Grafo_def)
  from unreachable_destination[OF 1 2 3 4 5] 1 2 3 4 5 show ?thesis by blast
qed

text \<open>
  C5 as stated fails. On the graph of two nodes and no edge, \<^verbatim>\<open>DFS(0, 1)\<close> indexes \<open>path\<close>
  out of bounds and \<^verbatim>\<open>dijkstra(0, 1)\<close> returns the sequence 0, 1, which is not a path of
  the graph; on the graph of three nodes and no edge \<^verbatim>\<open>dijkstra(1, 2)\<close> does not return.
\<close>

theorem unreachable_no_failure:
  "DFS (Grafo 2) 0 (1 :: 64 word) = Some (Inl OutOfBounds) \<and>
   dijkstra (Grafo 2) 0 (1 :: 64 word) = Some (Inr (T_max, [0, 1])) \<and>
   \<not> is_path (Grafo 2 :: 64 word Grafo) [0, 1] \<and>
   dijkstra (Grafo 3) 1 (2 :: 64 word) = None"
proof -
  have 1: "DFS (Grafo 2) 0 (1 :: 64 word) = Some (Inl OutOfBounds)"
    by (simp add: DFS_def search_def Grafo_def search_loop.simps reconstruct.simps
        T_max_def stack_push_def unat_max64)
  have 2: "dijkstra (Grafo 2) 0 (1 :: 64 word) = Some (Inr (T_max, [0, 1]))"
    by (simp add: dijkstra_def Grafo_def dijkstra_loop.simps reconstruct.simps)
  have 3: "\<not> is_path (Grafo 2 :: 64 word Grafo) [0, 1]"
    by (simp add: no_edge_Grafo)
  have "dijkstra_loop (Grafo 3) (2 :: 64 word) (replicate 3 0) (replicate 3 False)
      ((replicate 3 T_max)[unat (1 :: 64 word) := 0]) [(0, 1)]
    = Some (Inr ([0, 0, 0], [T_max, 0, T_max]))"
    by (simp add: Grafo_def dijkstra_loop.simps numeral_3_eq_3)
  moreover have "reconstruct [0, 0, 0 :: 64 word] 1 2 [] = reconstruct [0, 0, 0 :: 64 word] 1 0 [2]"
    by (subst reconstruct.simps) simp
  ultimately have 4: "dijkstra (Grafo 3) 1 (2 :: 64 word) = None"
    by (simp add: dijkstra_def Grafo_def reconstruct_diverges)
  show ?thesis by (intro conjI) (fact 1 2 3 4)+
qed

section \<open>The inner loop of Dijkstra without overflow\<close>

lemma add_no_wrap:
  fixes a w :: "'a::len word"
  assumes "unat a + unat w < 2 ^ LENGTH('a) - 1"
  shows "unat (a + w) = unat a + unat w" and "a + w \<noteq> T_max" and "a \<le> a + w"
proof -
  from assms have "unat a + unat w < 2 ^ LENGTH('a)" by simp
  then show u: "unat (a + w) = unat a + unat w" by (simp add: unat_add_lem)
  from u assms have "unat (a + w) \<noteq> unat (T_max :: 'a word)" by (simp add: unat_T_max)
  then show "a + w \<noteq> T_max" by auto
  from u show "a \<le> a + w" by (simp add: word_le_nat_alt)
qed

text \<open>When the sum does not wrap around, the test of the inner loop is the same at every width.\<close>

lemma cost_less_no_wrap:
  fixes c w d :: "'a::len word"
  assumes "unat c + unat w < 2 ^ LENGTH('a) - 1"
  shows "cost_less c w d \<longleftrightarrow> c + w < d"
  using add_no_wrap(1)[OF assms] by (simp add: cost_less_def word_less_nat_alt)

lemma le_T_max: "(x :: 'a::len word) \<le> T_max"
  by (simp add: T_max_def)

text \<open>
  \<open>relaxed\<close> says what the inner loop has done to \<open>costs\<close>, \<open>path\<close> and the queue when no
  sum wraps around: \<open>c0\<close> is the cost of the current node and \<open>V\<close> marks the visited nodes,
  the current one among them.
\<close>

definition relaxed ::
  "'a::len word \<Rightarrow> 'a word \<Rightarrow> 'a word list \<Rightarrow> 'a word list \<Rightarrow> bool list \<Rightarrow>
   'a word list \<Rightarrow> ('a word \<times> 'a word) list \<Rightarrow> 'a word list \<Rightarrow>
   'a word list \<Rightarrow> ('a word \<times> 'a word) list \<Rightarrow> 'a word list \<Rightarrow> bool" where
  "relaxed cur c0 ns ws V costs pq path costs' pq' path' \<longleftrightarrow>
     length costs' = length costs \<and> length path' = length path \<and>
     (\<forall>i<length costs. V ! i \<longrightarrow> costs' ! i = costs ! i \<and> path' ! i = path ! i) \<and>
     (\<forall>i<length costs. costs' ! i \<le> costs ! i) \<and>
     (\<forall>i<length costs. (costs' ! i = costs ! i \<and> path' ! i = path ! i) \<or>
        (costs' ! i < costs ! i \<and> path' ! i = cur \<and>
         (\<exists>n w. (n, w) \<in> set (zip ns ws) \<and> unat n = i \<and> costs' ! i = c0 + w))) \<and>
     (\<forall>n w. (n, w) \<in> set (zip ns ws) \<longrightarrow> costs' ! unat n \<le> c0 + w) \<and>
     set pq \<subseteq> set pq' \<and>
     (\<forall>k v. (k, v) \<in> set pq' \<longrightarrow> (k, v) \<in> set pq \<or>
        (v \<in> set ns \<and> costs' ! unat v \<le> k \<and> k \<noteq> T_max \<and> costs' ! unat v < costs ! unat v)) \<and>
     (\<forall>v. unat v < length costs \<longrightarrow> costs' ! unat v < costs ! unat v \<longrightarrow>
        (costs' ! unat v, v) \<in> set pq')"

lemma relax_exact:
  fixes cur :: "'a::len word"
  assumes "length ws = length ns" "\<forall>n\<in>set ns. unat n < length costs"
    "length path = length costs" "unat cur < length costs"
    and "costs ! unat cur = c0"
    and "\<forall>w\<in>set ws. unat c0 + unat w < 2 ^ LENGTH('a) - 1"
    and "\<forall>v :: 'a word. unat v < length costs \<longrightarrow> V ! unat v \<longrightarrow> costs ! unat v \<le> c0"
    and "V ! unat cur"
  shows "\<exists>costs' pq' path'. relax cur ns ws costs pq path = Inr (costs', pq', path') \<and>
     relaxed cur c0 ns ws V costs pq path costs' pq' path'"
  using assms
proof (induction cur ns ws costs pq path rule: relax.induct)
  case (1 cur ws costs pq path)
  then show ?case by (simp add: relaxed_def)
next
  case (2 cur n ns costs pq path)
  then show ?case by simp
next
  case (3 cur n ns w ws costs pq path)
  from "3.prems" have n: "unat n < length costs" "unat n < length path"
    and cur: "unat cur < length costs" and c0: "costs ! unat cur = c0"
    and nw: "unat c0 + unat w < 2 ^ LENGTH('a) - 1"
    by simp_all
  note aw = add_no_wrap[OF nw]
  have cl: "cost_less c0 w (costs ! unat n) \<longleftrightarrow> c0 + w < costs ! unat n"
    "cost_less (costs ! unat cur) w (costs ! unat n) \<longleftrightarrow> c0 + w < costs ! unat n"
    using cost_less_no_wrap[OF nw] c0 by simp_all
  show ?case
  proof (cases "c0 + w < costs ! unat n")
    case False
    have "\<exists>costs' pq' path'. relax cur ns ws costs pq path = Inr (costs', pq', path') \<and>
       relaxed cur c0 ns ws V costs pq path costs' pq' path'"
      using "3.IH"(2) "3.prems" False c0 cl(1) by simp
    then obtain costs' pq' path' where
      rl: "relax cur ns ws costs pq path = Inr (costs', pq', path')"
      and R: "relaxed cur c0 ns ws V costs pq path costs' pq' path'"
      by blast
    from R have len: "length costs' = length costs" "length path' = length path"
      and keep: "\<forall>i<length costs. V ! i \<longrightarrow> costs' ! i = costs ! i \<and> path' ! i = path ! i"
      and le: "\<forall>i<length costs. costs' ! i \<le> costs ! i"
      and ch: "\<forall>i<length costs. (costs' ! i = costs ! i \<and> path' ! i = path ! i) \<or>
        (costs' ! i < costs ! i \<and> path' ! i = cur \<and>
         (\<exists>n w. (n, w) \<in> set (zip ns ws) \<and> unat n = i \<and> costs' ! i = c0 + w))"
      and ed: "\<forall>n w. (n, w) \<in> set (zip ns ws) \<longrightarrow> costs' ! unat n \<le> c0 + w"
      and sub: "set pq \<subseteq> set pq'"
      and nq: "\<forall>k v. (k, v) \<in> set pq' \<longrightarrow> (k, v) \<in> set pq \<or>
        (v \<in> set ns \<and> costs' ! unat v \<le> k \<and> k \<noteq> T_max \<and> costs' ! unat v < costs ! unat v)"
      and pu: "\<forall>v. unat v < length costs \<longrightarrow> costs' ! unat v < costs ! unat v \<longrightarrow>
        (costs' ! unat v, v) \<in> set pq'"
      by (simp_all add: relaxed_def)
    have ch': "\<forall>i<length costs. (costs' ! i = costs ! i \<and> path' ! i = path ! i) \<or>
        (costs' ! i < costs ! i \<and> path' ! i = cur \<and>
         (\<exists>m x. (m, x) \<in> set (zip (n # ns) (w # ws)) \<and> unat m = i \<and> costs' ! i = c0 + x))"
    proof (intro allI impI)
      fix i assume i: "i < length costs"
      from ch i consider (same) "costs' ! i = costs ! i" "path' ! i = path ! i"
        | (less) "costs' ! i < costs ! i" "path' ! i = cur"
            "\<exists>n w. (n, w) \<in> set (zip ns ws) \<and> unat n = i \<and> costs' ! i = c0 + w"
        by blast
      then show "(costs' ! i = costs ! i \<and> path' ! i = path ! i) \<or>
        (costs' ! i < costs ! i \<and> path' ! i = cur \<and>
         (\<exists>m x. (m, x) \<in> set (zip (n # ns) (w # ws)) \<and> unat m = i \<and> costs' ! i = c0 + x))"
      proof cases
        case same
        then show ?thesis by simp
      next
        case less
        from less(3) have "\<exists>m x. (m, x) \<in> set (zip (n # ns) (w # ws)) \<and> unat m = i \<and>
            costs' ! i = c0 + x"
          by auto
        with less(1,2) show ?thesis by blast
      qed
    qed
    have ed': "\<forall>m x. (m, x) \<in> set (zip (n # ns) (w # ws)) \<longrightarrow> costs' ! unat m \<le> c0 + x"
    proof (intro allI impI)
      fix m x assume "(m, x) \<in> set (zip (n # ns) (w # ws))"
      then consider "m = n" "x = w" | "(m, x) \<in> set (zip ns ws)" by auto
      then show "costs' ! unat m \<le> c0 + x"
      proof cases
        case 1
        have "costs' ! unat n \<le> costs ! unat n" using le n by simp
        also have "\<dots> \<le> c0 + w" using False by simp
        finally show ?thesis using 1 by simp
      next
        case 2
        with ed show ?thesis by simp
      qed
    qed
    have nq': "\<forall>k v. (k, v) \<in> set pq' \<longrightarrow> (k, v) \<in> set pq \<or>
        (v \<in> set (n # ns) \<and> costs' ! unat v \<le> k \<and> k \<noteq> T_max \<and> costs' ! unat v < costs ! unat v)"
      using nq by auto
    have "relaxed cur c0 (n # ns) (w # ws) V costs pq path costs' pq' path'"
      unfolding relaxed_def using len keep le ch' ed' sub nq' pu by blast
    moreover have "relax cur (n # ns) (w # ws) costs pq path = Inr (costs', pq', path')"
      using rl False n cur c0 cl(1) by simp
    ultimately show ?thesis by blast
  next
    case True
    let ?costs = "costs[unat n := c0 + w]" and ?path = "path[unat n := cur]"
    let ?pq = "(c0 + w, n) # pq"
    have nV: "\<not> V ! unat n"
    proof
      assume "V ! unat n"
      with "3.prems"(7) n(1) have "costs ! unat n \<le> c0" by blast
      also have "c0 \<le> c0 + w" by (rule aw(3))
      finally show False using True by simp
    qed
    with "3.prems" have nc: "unat n \<noteq> unat cur" by auto
    have c0': "?costs ! unat cur = c0" using nc c0 by simp
    have vis': "\<forall>v :: 'a word. unat v < length ?costs \<longrightarrow> V ! unat v \<longrightarrow> ?costs ! unat v \<le> c0"
    proof (intro allI impI)
      fix v :: "'a word" assume v: "unat v < length ?costs" "V ! unat v"
      with nV have "unat v \<noteq> unat n" by auto
      then have "?costs ! unat v = costs ! unat v" by simp
      moreover from "3.prems"(7) v have "costs ! unat v \<le> c0" by simp
      ultimately show "?costs ! unat v \<le> c0" by simp
    qed
    have upd: "?costs ! unat n = c0 + w" using n by simp
    from cl(2) True have T': "cost_less (costs ! unat cur) w (costs ! unat n)" by simp
    have "\<exists>costs' pq' path'.
       relax cur ns ws (costs[unat n := costs ! unat cur + w])
         ((costs[unat n := costs ! unat cur + w] ! unat n, n) # pq) (path[unat n := cur])
         = Inr (costs', pq', path') \<and>
       relaxed cur c0 ns ws V (costs[unat n := costs ! unat cur + w])
         ((costs[unat n := costs ! unat cur + w] ! unat n, n) # pq) (path[unat n := cur])
         costs' pq' path'"
      by (rule "3.IH"(1)[OF _ T' refl n(2)]) (use cur n "3.prems" c0' c0 vis' in simp_all)
    then have "\<exists>costs' pq' path'. relax cur ns ws ?costs ?pq ?path = Inr (costs', pq', path') \<and>
       relaxed cur c0 ns ws V ?costs ?pq ?path costs' pq' path'"
      using c0 upd by simp
    then obtain costs' pq' path' where
      rl: "relax cur ns ws ?costs ?pq ?path = Inr (costs', pq', path')"
      and R: "relaxed cur c0 ns ws V ?costs ?pq ?path costs' pq' path'"
      by blast
    from R have len: "length costs' = length costs" "length path' = length path"
      and keep: "\<forall>i<length costs. V ! i \<longrightarrow> costs' ! i = ?costs ! i \<and> path' ! i = ?path ! i"
      and le: "\<forall>i<length costs. costs' ! i \<le> ?costs ! i"
      and ch: "\<forall>i<length costs. (costs' ! i = ?costs ! i \<and> path' ! i = ?path ! i) \<or>
        (costs' ! i < ?costs ! i \<and> path' ! i = cur \<and>
         (\<exists>n w. (n, w) \<in> set (zip ns ws) \<and> unat n = i \<and> costs' ! i = c0 + w))"
      and ed: "\<forall>n w. (n, w) \<in> set (zip ns ws) \<longrightarrow> costs' ! unat n \<le> c0 + w"
      and sub: "set ?pq \<subseteq> set pq'"
      and nq: "\<forall>k v. (k, v) \<in> set pq' \<longrightarrow> (k, v) \<in> set ?pq \<or>
        (v \<in> set ns \<and> costs' ! unat v \<le> k \<and> k \<noteq> T_max \<and> costs' ! unat v < ?costs ! unat v)"
      and pu: "\<forall>v. unat v < length costs \<longrightarrow> costs' ! unat v < ?costs ! unat v \<longrightarrow>
        (costs' ! unat v, v) \<in> set pq'"
      by (simp_all add: relaxed_def)
    have old: "?costs ! i \<le> costs ! i" if "i < length costs" for i
    proof (cases "i = unat n")
      case True
      with \<open>c0 + w < costs ! unat n\<close> upd show ?thesis by simp
    next
      case False
      then show ?thesis by simp
    qed
    have keep': "\<forall>i<length costs. V ! i \<longrightarrow> costs' ! i = costs ! i \<and> path' ! i = path ! i"
    proof (intro allI impI)
      fix i assume i: "i < length costs" "V ! i"
      with nV have "i \<noteq> unat n" by auto
      then have "?costs ! i = costs ! i" "?path ! i = path ! i" by simp_all
      with keep i show "costs' ! i = costs ! i \<and> path' ! i = path ! i" by simp
    qed
    have le': "\<forall>i<length costs. costs' ! i \<le> costs ! i"
      using le old by (meson order_trans)
    have ch': "\<forall>i<length costs. (costs' ! i = costs ! i \<and> path' ! i = path ! i) \<or>
        (costs' ! i < costs ! i \<and> path' ! i = cur \<and>
         (\<exists>m x. (m, x) \<in> set (zip (n # ns) (w # ws)) \<and> unat m = i \<and> costs' ! i = c0 + x))"
    proof (intro allI impI)
      fix i assume i: "i < length costs"
      from ch i consider (same) "costs' ! i = ?costs ! i" "path' ! i = ?path ! i"
        | (less) "costs' ! i < ?costs ! i" "path' ! i = cur"
            "\<exists>n w. (n, w) \<in> set (zip ns ws) \<and> unat n = i \<and> costs' ! i = c0 + w"
        by blast
      then show "(costs' ! i = costs ! i \<and> path' ! i = path ! i) \<or>
        (costs' ! i < costs ! i \<and> path' ! i = cur \<and>
         (\<exists>m x. (m, x) \<in> set (zip (n # ns) (w # ws)) \<and> unat m = i \<and> costs' ! i = c0 + x))"
      proof cases
        case same
        show ?thesis
        proof (cases "i = unat n")
          case True
          with same upd n \<open>c0 + w < costs ! unat n\<close>
          have "costs' ! i < costs ! i" "path' ! i = cur" "costs' ! i = c0 + w" by simp_all
          moreover have "(n, w) \<in> set (zip (n # ns) (w # ws))" by simp
          ultimately show ?thesis using True by blast
        next
          case False
          with same show ?thesis by simp
        qed
      next
        case less
        from less(1) old[OF i] have "costs' ! i < costs ! i" by simp
        moreover from less(3) have "\<exists>m x. (m, x) \<in> set (zip (n # ns) (w # ws)) \<and> unat m = i \<and>
            costs' ! i = c0 + x"
          by auto
        ultimately show ?thesis using less(2) by blast
      qed
    qed
    have ed': "\<forall>m x. (m, x) \<in> set (zip (n # ns) (w # ws)) \<longrightarrow> costs' ! unat m \<le> c0 + x"
    proof (intro allI impI)
      fix m x assume "(m, x) \<in> set (zip (n # ns) (w # ws))"
      then consider "m = n" "x = w" | "(m, x) \<in> set (zip ns ws)" by auto
      then show "costs' ! unat m \<le> c0 + x"
      proof cases
        case 1
        have "costs' ! unat n \<le> c0 + w" using le[rule_format, OF n(1)] upd by simp
        with 1 show ?thesis by simp
      next
        case 2
        with ed show ?thesis by simp
      qed
    qed
    have sub': "set pq \<subseteq> set pq'" using sub by auto
    have nq': "\<forall>k v. (k, v) \<in> set pq' \<longrightarrow> (k, v) \<in> set pq \<or>
        (v \<in> set (n # ns) \<and> costs' ! unat v \<le> k \<and> k \<noteq> T_max \<and> costs' ! unat v < costs ! unat v)"
    proof (intro allI impI)
      fix k v assume "(k, v) \<in> set pq'"
      with nq consider "k = c0 + w" "v = n" | "(k, v) \<in> set pq"
        | "v \<in> set ns" "costs' ! unat v \<le> k" "k \<noteq> T_max" "costs' ! unat v < ?costs ! unat v"
        by auto
      then show "(k, v) \<in> set pq \<or>
        (v \<in> set (n # ns) \<and> costs' ! unat v \<le> k \<and> k \<noteq> T_max \<and> costs' ! unat v < costs ! unat v)"
      proof cases
        case 1
        have "costs' ! unat n \<le> c0 + w" using le[rule_format, OF n(1)] upd by simp
        moreover have "costs' ! unat n < costs ! unat n"
          using calculation True by simp
        ultimately show ?thesis using 1 aw(2) by simp
      next
        case 2
        then show ?thesis by simp
      next
        case 3
        from "3.prems" 3(1) have "unat v < length costs" by simp
        from 3(4) old[OF this] have "costs' ! unat v < costs ! unat v" by simp
        with 3 show ?thesis by simp
      qed
    qed
    have pu': "\<forall>v. unat v < length costs \<longrightarrow> costs' ! unat v < costs ! unat v \<longrightarrow>
        (costs' ! unat v, v) \<in> set pq'"
    proof (intro allI impI)
      fix v :: "'a word" assume v: "unat v < length costs" "costs' ! unat v < costs ! unat v"
      show "(costs' ! unat v, v) \<in> set pq'"
      proof (cases "costs' ! unat v < ?costs ! unat v")
        case True
        with pu v(1) show ?thesis by simp
      next
        case False
        with le[rule_format, OF v(1)] have eq: "costs' ! unat v = ?costs ! unat v" by simp
        with v(2) have "unat v = unat n" by (metis nth_list_update_neq order_less_irrefl)
        then have "v = n" by (simp add: word_unat_eq_iff)
        with eq upd sub show ?thesis by auto
      qed
    qed
    have "relaxed cur c0 (n # ns) (w # ws) V costs pq path costs' pq' path'"
      unfolding relaxed_def using len keep' le' ch' ed' sub' nq' pu' by blast
    moreover have "relax cur (n # ns) (w # ws) costs pq path = Inr (costs', pq', path')"
      using rl True n cur c0 cl(1) by (simp add: Let_def)
    ultimately show ?thesis by blast
  qed
qed

section \<open>Weights and walks\<close>

text \<open>
  The sum of the weights stored for node \<open>i\<close>, of all the weights stored in the graph (an
  edge is stored twice), and of the weights stored for the visited nodes, as natural
  numbers.
\<close>

definition row_weight :: "'a::len word Grafo \<Rightarrow> nat \<Rightarrow> nat" where
  "row_weight g i = sum_list (map unat (weights g ! i))"

definition total_weight :: "'a::len word Grafo \<Rightarrow> nat" where
  "total_weight g = sum_list (map (\<lambda>ws. sum_list (map unat ws)) (weights g))"

definition visited_weight :: "'a::len word Grafo \<Rightarrow> bool list \<Rightarrow> nat" where
  "visited_weight g visited = (\<Sum>i | i < length visited \<and> visited ! i. row_weight g i)"

text \<open>
  A walk from \<open>u\<close>: a sequence of steps (node, weight), each along a stored edge with that
  weight. Its cost is the sum of the weights as natural numbers, without wrap-around.
\<close>

fun is_walk :: "'a::len word Grafo \<Rightarrow> 'a word \<Rightarrow> ('a word \<times> 'a word) list \<Rightarrow> bool" where
  "is_walk g u [] = True"
| "is_walk g u ((v, w) # es) = (has_wedge g u v w \<and> is_walk g v es)"

definition walk_cost :: "('a::len word \<times> 'a word) list \<Rightarrow> nat" where
  "walk_cost es = sum_list (map (\<lambda>(v, w). unat w) es)"

definition walk_between ::
  "'a::len word Grafo \<Rightarrow> 'a word \<Rightarrow> 'a word \<Rightarrow> ('a word \<times> 'a word) list \<Rightarrow> bool" where
  "walk_between g src dst es \<longleftrightarrow> is_walk g src es \<and> last (src # map fst es) = dst"

lemma total_weight_sum: "total_weight g = (\<Sum>i<length (weights g). row_weight g i)"
proof -
  have "total_weight g = (\<Sum>i = 0..<length (weights g). map (\<lambda>ws. sum_list (map unat ws)) (weights g) ! i)"
    unfolding total_weight_def by (simp add: sum_list_sum_nth)
  also have "\<dots> = (\<Sum>i = 0..<length (weights g). row_weight g i)"
    by (rule sum.cong) (simp_all add: row_weight_def)
  finally show ?thesis by (simp add: atLeast0LessThan)
qed

lemma visited_weight_le:
  "length visited = length (weights g) \<Longrightarrow> visited_weight g visited \<le> total_weight g"
  unfolding visited_weight_def total_weight_sum
  by (rule sum_mono2) auto

lemma visited_weight_update:
  assumes "i < length visited" "\<not> visited ! i"
  shows "visited_weight g (visited[i := True]) = visited_weight g visited + row_weight g i"
proof -
  let ?S = "{j. j < length visited \<and> visited ! j}"
  have "{j. j < length (visited[i := True]) \<and> visited[i := True] ! j} = insert i ?S"
    using assms by (auto simp: nth_list_update)
  moreover have "finite ?S" "i \<notin> ?S" using assms by simp_all
  ultimately show ?thesis by (simp add: visited_weight_def)
qed

lemma weight_le_row: "w \<in> set (weights g ! i) \<Longrightarrow> unat w \<le> row_weight g i"
  unfolding row_weight_def using member_le_sum_list[of "unat w" "map unat (weights g ! i)"] by simp

lemma has_wedge_edge: "has_wedge g u v w \<Longrightarrow> has_edge g u v"
  by (auto simp: has_wedge_def has_edge_def dest: set_zip_leftD)

lemma has_edge_wedge:
  assumes "wf_grafo g" "has_edge g u v"
  shows "\<exists>w. has_wedge g u v w"
proof -
  from assms(2) have u: "unat u < length (adjacency_list g)"
    and v: "v \<in> set (adjacency_list g ! unat u)"
    by (simp_all add: has_edge_def)
  from wf_grafo_nth[OF assms(1) u]
  have l: "length (weights g ! unat u) = length (adjacency_list g ! unat u)" by simp
  from v obtain j where j: "j < length (adjacency_list g ! unat u)" "adjacency_list g ! unat u ! j = v"
    by (auto simp: in_set_conv_nth)
  then have "(v, weights g ! unat u ! j) \<in> set (zip (adjacency_list g ! unat u) (weights g ! unat u))"
    using l by (auto simp: set_zip)
  then show ?thesis
    using u wf_grafo_length[OF assms(1)] by (auto simp: has_wedge_def)
qed

lemma is_walk_snoc:
  "is_walk g u (es @ [(v, w)]) = (is_walk g u es \<and> has_wedge g (last (u # map fst es)) v w)"
  by (induction g u es rule: is_walk.induct) auto

lemma walk_cost_snoc: "walk_cost (es @ [(v, w)]) = walk_cost es + unat w"
  by (simp add: walk_cost_def)

lemma walk_cost_Cons: "walk_cost ((v, w) # es) = unat w + walk_cost es"
  by (simp add: walk_cost_def)

lemma is_walk_path: "is_walk g u es \<Longrightarrow> is_path g (u # map fst es)"
  by (induction g u es rule: is_walk.induct) (auto dest: has_wedge_edge)

lemma walk_between_reachable: "walk_between g src dst es \<Longrightarrow> reachable g src dst"
  unfolding walk_between_def reachable_def path_between_def
  by (rule exI[of _ "src # map fst es"]) (simp add: is_walk_path)

section \<open>The invariant of Dijkstra without overflow\<close>

text \<open>
  Every queued pair holds a node and a cost that is not below the present cost of the node
  and is not the maximum.
\<close>

definition dj_queue :: "'a::len word Grafo \<Rightarrow> 'a word list \<Rightarrow> ('a word \<times> 'a word) list \<Rightarrow> bool" where
  "dj_queue g costs pq \<longleftrightarrow>
     (\<forall>k v. (k, v) \<in> set pq \<longrightarrow> unat v < node_count g \<and> costs ! unat v \<le> k \<and> k \<noteq> T_max)"

text \<open>
  The cost of \<open>src\<close> is 0; a node that is not visited and has a cost below the maximum is
  queued with that cost; the cost of a visited node is below the maximum and not above the
  cost of any node that is not visited; \<open>dst\<close> is not visited.
\<close>

definition dj_costs ::
  "'a::len word Grafo \<Rightarrow> 'a word \<Rightarrow> 'a word \<Rightarrow> bool list \<Rightarrow> 'a word list \<Rightarrow>
   ('a word \<times> 'a word) list \<Rightarrow> bool" where
  "dj_costs g src dst visited costs pq \<longleftrightarrow>
     costs ! unat src = 0 \<and>
     (\<forall>v :: 'a word. unat v < node_count g \<longrightarrow> \<not> visited ! unat v \<longrightarrow> costs ! unat v \<noteq> T_max \<longrightarrow>
        (costs ! unat v, v) \<in> set pq) \<and>
     (\<forall>(u :: 'a word) (v :: 'a word). unat u < node_count g \<longrightarrow> unat v < node_count g \<longrightarrow>
        visited ! unat u \<longrightarrow> \<not> visited ! unat v \<longrightarrow> costs ! unat u \<le> costs ! unat v) \<and>
     (\<forall>v :: 'a word. unat v < node_count g \<longrightarrow> visited ! unat v \<longrightarrow> costs ! unat v \<noteq> T_max) \<and>
     (unat dst < node_count g \<longrightarrow> \<not> visited ! unat dst)"

text \<open>Every edge out of a visited node has been relaxed.\<close>

definition dj_edges :: "'a::len word Grafo \<Rightarrow> bool list \<Rightarrow> 'a word list \<Rightarrow> bool" where
  "dj_edges g visited costs \<longleftrightarrow>
     (\<forall>u v w. unat u < node_count g \<longrightarrow> visited ! unat u \<longrightarrow> has_wedge g u v w \<longrightarrow>
        costs ! unat v \<noteq> T_max \<and> unat (costs ! unat v) \<le> unat (costs ! unat u) + unat w)"

text \<open>A cost below the maximum is bounded by the weights stored for the visited nodes.\<close>

definition dj_bound :: "'a::len word Grafo \<Rightarrow> bool list \<Rightarrow> 'a word list \<Rightarrow> bool" where
  "dj_bound g visited costs \<longleftrightarrow>
     (\<forall>v :: 'a word. unat v < node_count g \<longrightarrow> costs ! unat v \<noteq> T_max \<longrightarrow>
        unat (costs ! unat v) \<le> visited_weight g visited)"

text \<open>
  The cost of a node other than \<open>src\<close>, when below the maximum, is the cost of its
  predecessor, a visited node, plus the weight of an edge from the predecessor.
\<close>

definition dj_pred ::
  "'a::len word Grafo \<Rightarrow> 'a word \<Rightarrow> 'a word list \<Rightarrow> bool list \<Rightarrow> 'a word list \<Rightarrow> bool" where
  "dj_pred g src path visited costs \<longleftrightarrow>
     (\<forall>v. unat v < node_count g \<longrightarrow> v \<noteq> src \<longrightarrow> costs ! unat v \<noteq> T_max \<longrightarrow>
        unat (path ! unat v) < node_count g \<and> visited ! unat (path ! unat v) \<and>
        (\<exists>w. has_wedge g (path ! unat v) v w \<and>
           unat (costs ! unat v) = unat (costs ! unat (path ! unat v)) + unat w))"

definition dijkstra_inv ::
  "'a::len word Grafo \<Rightarrow> 'a word \<Rightarrow> 'a word \<Rightarrow> 'a word list \<Rightarrow> bool list \<Rightarrow> 'a word list \<Rightarrow>
   ('a word \<times> 'a word) list \<Rightarrow> bool" where
  "dijkstra_inv g src dst path visited costs pq \<longleftrightarrow>
     unat src < node_count g \<and> length path = node_count g \<and> length visited = node_count g \<and> length costs = node_count g \<and>
     dj_queue g costs pq \<and> dj_costs g src dst visited costs pq \<and> dj_edges g visited costs \<and>
     dj_bound g visited costs \<and> dj_pred g src path visited costs \<and>
     chain_inv g src path visited (map snd pq)"

lemma T_max_neq_0: "(T_max :: 'a::len word) \<noteq> 0"
  by (simp add: T_max_def)

lemma dijkstra_inv_init:
  fixes g :: "'a::len word Grafo"
  assumes src: "unat src < node_count g"
  shows "dijkstra_inv g src dst (replicate (node_count g) 0) (replicate (node_count g) False)
     ((replicate (node_count g) T_max)[unat src := 0]) [(0, src)]"
proof -
  let ?n = "node_count g"
  let ?costs = "(replicate ?n T_max)[unat src := 0] :: 'a word list"
  have c: "?costs ! unat v = (if v = src then 0 else T_max)" if "unat v < ?n" for v :: "'a word"
    using that src by (auto simp: nth_list_update word_unat_eq_iff)
  have s0: "?costs ! unat src = 0" using src by simp
  have "dj_queue g ?costs [(0, src)]"
    using src s0 T_max_neq_0[where 'a = 'a] by (auto simp: dj_queue_def)
  moreover have "dj_costs g src dst (replicate ?n False) ?costs [(0, src)]"
    unfolding dj_costs_def using s0 c by auto
  moreover have "dj_edges g (replicate ?n False) ?costs"
    by (simp add: dj_edges_def)
  moreover have "dj_bound g (replicate ?n False) ?costs"
    unfolding dj_bound_def using c by auto
  moreover have "dj_pred g src (replicate ?n 0) (replicate ?n False) ?costs"
    unfolding dj_pred_def using c by auto
  moreover have "chain_inv g src (replicate ?n 0) (replicate ?n False) (map snd [(0 :: 'a word, src)])"
    using src by (simp add: chain_inv_def)
  ultimately show ?thesis using src by (simp add: dijkstra_inv_def)
qed

lemma pq_min:
  fixes pq :: "('a::len word \<times> 'a word) list"
  assumes "(k, v) \<in> set pq"
  shows "fst (Min (set pq)) \<le> k"
proof -
  have "Min (set pq) \<le> (k, v)" using assms by simp
  then show ?thesis by (auto simp: less_eq_prod_def)
qed

text \<open>The pair taken from the queue holds the present cost of its node when the node is not visited.\<close>

lemma popped_cost:
  fixes g :: "'a::len word Grafo"
  assumes I: "dijkstra_inv g src dst path visited costs pq" and ne: "pq \<noteq> []"
    and nv: "\<not> visited ! unat (snd (Min (set pq)))"
  shows "fst (Min (set pq)) = costs ! unat (snd (Min (set pq)))"
proof -
  let ?k = "fst (Min (set pq))" and ?cur = "snd (Min (set pq))"
  from I have Q: "dj_queue g costs pq" and DC: "dj_costs g src dst visited costs pq"
    by (simp_all add: dijkstra_inv_def)
  from Q have "unat ?cur < node_count g \<and> costs ! unat ?cur \<le> ?k \<and> ?k \<noteq> T_max"
    unfolding dj_queue_def using Min_in_pq[OF ne] by blast
  then have cur: "unat ?cur < node_count g" and le: "costs ! unat ?cur \<le> ?k"
    and fin: "?k \<noteq> T_max"
    by simp_all
  have "costs ! unat ?cur \<noteq> T_max"
  proof
    assume "costs ! unat ?cur = T_max"
    with le have "T_max \<le> ?k" by simp
    with le_T_max[of ?k] fin show False by simp
  qed
  with DC cur nv have "(costs ! unat ?cur, ?cur) \<in> set pq" by (simp add: dj_costs_def)
  from pq_min[OF this] le show ?thesis by simp
qed

lemma chain_inv_mono:
  "chain_inv g src path visited to_visit \<Longrightarrow> set to_visit' \<subseteq> set to_visit \<Longrightarrow>
   chain_inv g src path visited to_visit'"
  unfolding chain_inv_def by blast

lemma dijkstra_inv_skip:
  fixes g :: "'a::len word Grafo"
  assumes I: "dijkstra_inv g src dst path visited costs pq" and ne: "pq \<noteq> []"
    and v: "visited ! unat (snd (Min (set pq)))"
  shows "dijkstra_inv g src dst path visited costs (remove1 (Min (set pq)) pq)"
proof -
  let ?popped = "remove1 (Min (set pq)) pq"
  have sub: "set ?popped \<subseteq> set pq" by (rule set_remove1_subset)
  from I have Q: "dj_queue g costs pq" and DC: "dj_costs g src dst visited costs pq"
    and CI: "chain_inv g src path visited (map snd pq)"
    by (simp_all add: dijkstra_inv_def)
  have "dj_queue g costs ?popped"
    using Q sub unfolding dj_queue_def by blast
  moreover have "dj_costs g src dst visited costs ?popped"
  proof -
    have "(costs ! unat x, x) \<in> set ?popped"
      if "unat x < node_count g" "\<not> visited ! unat x" "costs ! unat x \<noteq> T_max" for x :: "'a word"
    proof -
      from DC that have "(costs ! unat x, x) \<in> set pq" by (simp add: dj_costs_def)
      moreover from that(2) v have "(costs ! unat x, x) \<noteq> Min (set pq)" by (metis snd_conv)
      ultimately show ?thesis by simp
    qed
    with DC show ?thesis unfolding dj_costs_def by blast
  qed
  moreover have "chain_inv g src path visited (map snd ?popped)"
    using CI by (rule chain_inv_mono) (use sub in auto)
  ultimately show ?thesis using I by (simp add: dijkstra_inv_def)
qed

lemma dijkstra_inv_visit:
  fixes g :: "'a::len word Grafo"
  assumes wf: "wf_grafo g" and tw: "total_weight g < 2 ^ LENGTH('a) - 1"
    and I: "dijkstra_inv g src dst path visited costs pq"
    and ne: "pq \<noteq> []" and nd: "snd (Min (set pq)) \<noteq> dst"
    and nv: "\<not> visited ! unat (snd (Min (set pq)))"
  shows "\<exists>costs' pq' path'.
     relax (snd (Min (set pq))) (adjacency_list g ! unat (snd (Min (set pq))))
       (weights g ! unat (snd (Min (set pq)))) costs (remove1 (Min (set pq)) pq) path
       = Inr (costs', pq', path') \<and>
     dijkstra_inv g src dst path' (visited[unat (snd (Min (set pq))) := True]) costs' pq'"
proof -
  let ?cur = "snd (Min (set pq))" and ?k = "fst (Min (set pq))" and ?n = "node_count g"
  let ?ns = "adjacency_list g ! unat ?cur" and ?ws = "weights g ! unat ?cur"
  let ?popped = "remove1 (Min (set pq)) pq" and ?V = "visited[unat ?cur := True]"
  from I have src: "unat src < ?n" and lp: "length path = ?n" and lv: "length visited = ?n" and lc: "length costs = ?n"
    and Q: "dj_queue g costs pq" and DC: "dj_costs g src dst visited costs pq"
    and DE: "dj_edges g visited costs" and DB: "dj_bound g visited costs"
    and DP: "dj_pred g src path visited costs"
    and CI: "chain_inv g src path visited (map snd pq)"
    by (simp_all add: dijkstra_inv_def)
  note Qd = Q[unfolded dj_queue_def, rule_format]
  from DC have J1: "costs ! unat src = 0"
    and J3o: "\<forall>v :: 'a word. unat v < ?n \<longrightarrow> \<not> visited ! unat v \<longrightarrow> costs ! unat v \<noteq> T_max \<longrightarrow>
        (costs ! unat v, v) \<in> set pq"
    and J4o: "\<forall>(u :: 'a word) (v :: 'a word). unat u < ?n \<longrightarrow> unat v < ?n \<longrightarrow>
        visited ! unat u \<longrightarrow> \<not> visited ! unat v \<longrightarrow> costs ! unat u \<le> costs ! unat v"
    and J6o: "\<forall>v :: 'a word. unat v < ?n \<longrightarrow> visited ! unat v \<longrightarrow> costs ! unat v \<noteq> T_max"
    and J8o: "unat dst < ?n \<longrightarrow> \<not> visited ! unat dst"
    by (simp_all add: dj_costs_def)
  note J3 = J3o[rule_format] and J4 = J4o[rule_format] and J6 = J6o[rule_format]
    and J8 = J8o[rule_format]
  have mem: "(?k, ?cur) \<in> set pq" by (rule Min_in_pq[OF ne])
  from Qd[OF mem] have cur: "unat ?cur < ?n" and kfin: "?k \<noteq> T_max" by simp_all
  have c0: "costs ! unat ?cur = ?k" using popped_cost[OF I ne nv] by simp
  have sub: "set ?popped \<subseteq> set pq" by (rule set_remove1_subset)
  have m3: "?k \<le> costs ! unat v" if "unat v < ?n" "\<not> visited ! unat v" for v :: "'a word"
  proof (cases "costs ! unat v = T_max")
    case True
    then show ?thesis using le_T_max[of ?k] by simp
  next
    case False
    from pq_min[OF J3[OF that False]] show ?thesis .
  qed
  have m4: "costs ! unat v \<le> ?k" if "unat v < ?n" "visited ! unat v" for v :: "'a word"
    using J4[OF that(1) cur that(2) nv] c0 by simp
  have Vcur: "?V ! unat ?cur" using cur lv by simp
  have Vold: "?V ! i" if "visited ! i" for i
    using that Vcur by (cases "i = unat ?cur") simp_all
  have Vnew: "visited ! i \<or> i = unat ?cur" if "?V ! i" for i
    using that by (cases "i = unat ?cur") simp_all
  note wfc = wf_grafo_nth[OF wf, of "unat ?cur"]
  have lw: "length ?ws = length ?ns" using wfc cur by (simp add: node_count_def)
  have nsr: "\<forall>m\<in>set ?ns. unat m < ?n" using wfc cur by (simp add: node_count_def)
  have lwg: "length (weights g) = ?n" using wf_grafo_length[OF wf] by (simp add: node_count_def)
  have zipw: "has_wedge g ?cur v w \<longleftrightarrow> (v, w) \<in> set (zip ?ns ?ws)" for v w
    using cur lwg by (simp add: has_wedge_def node_count_def)
  have vwV: "visited_weight g ?V = visited_weight g visited + row_weight g (unat ?cur)"
    using cur lv nv by (simp add: visited_weight_update)
  have vwle: "visited_weight g ?V \<le> total_weight g"
    using lv lwg by (simp add: visited_weight_le)
  have kb: "unat ?k \<le> visited_weight g visited"
    using DB cur kfin c0 by (auto simp: dj_bound_def)
  have wb: "unat ?k + unat w \<le> visited_weight g ?V" if "w \<in> set ?ws" for w
    using kb weight_le_row[OF that] vwV by simp
  have noov: "\<forall>w\<in>set ?ws. unat ?k + unat w < 2 ^ LENGTH('a) - 1"
  proof
    fix w assume "w \<in> set ?ws"
    from wb[OF this] vwle tw show "unat ?k + unat w < 2 ^ LENGTH('a) - 1" by linarith
  qed
  have vis: "\<forall>v :: 'a word. unat v < length costs \<longrightarrow> ?V ! unat v \<longrightarrow> costs ! unat v \<le> ?k"
  proof (intro allI impI)
    fix v :: "'a word" assume v: "unat v < length costs" "?V ! unat v"
    from Vnew[OF v(2)] show "costs ! unat v \<le> ?k"
    proof
      assume "visited ! unat v"
      with v(1) lc show ?thesis using m4 by simp
    next
      assume "unat v = unat ?cur"
      with c0 show ?thesis by simp
    qed
  qed
  have "\<exists>costs' pq' path'. relax ?cur ?ns ?ws costs ?popped path = Inr (costs', pq', path') \<and>
     relaxed ?cur ?k ?ns ?ws ?V costs ?popped path costs' pq' path'"
    using lw _ _ _ c0 noov vis Vcur
    by (rule relax_exact) (use nsr lc lp cur in simp_all)
  then obtain costs' pq' path' where
    rl: "relax ?cur ?ns ?ws costs ?popped path = Inr (costs', pq', path')"
    and R: "relaxed ?cur ?k ?ns ?ws ?V costs ?popped path costs' pq' path'"
    by blast
  from R have lc0: "length costs' = length costs" and lp0: "length path' = length path"
    and keepo: "\<forall>i<length costs. ?V ! i \<longrightarrow> costs' ! i = costs ! i \<and> path' ! i = path ! i"
    and leo: "\<forall>i<length costs. costs' ! i \<le> costs ! i"
    and cho: "\<forall>i<length costs. (costs' ! i = costs ! i \<and> path' ! i = path ! i) \<or>
        (costs' ! i < costs ! i \<and> path' ! i = ?cur \<and>
         (\<exists>n w. (n, w) \<in> set (zip ?ns ?ws) \<and> unat n = i \<and> costs' ! i = ?k + w))"
    and edo: "\<forall>n w. (n, w) \<in> set (zip ?ns ?ws) \<longrightarrow> costs' ! unat n \<le> ?k + w"
    and sub': "set ?popped \<subseteq> set pq'"
    and nqo: "\<forall>k v. (k, v) \<in> set pq' \<longrightarrow> (k, v) \<in> set ?popped \<or>
        (v \<in> set ?ns \<and> costs' ! unat v \<le> k \<and> k \<noteq> T_max \<and> costs' ! unat v < costs ! unat v)"
    and puo: "\<forall>v. unat v < length costs \<longrightarrow> costs' ! unat v < costs ! unat v \<longrightarrow>
        (costs' ! unat v, v) \<in> set pq'"
    by (simp_all add: relaxed_def)
  from lc0 lp0 lc lp have lc': "length costs' = ?n" and lp': "length path' = ?n" by simp_all
  note keep = keepo[unfolded lc, rule_format] and le = leo[unfolded lc, rule_format]
    and ch = cho[unfolded lc, rule_format] and ed = edo[rule_format]
    and nq = nqo[rule_format] and pu = puo[unfolded lc, rule_format]
  have chw: "(costs' ! unat v = costs ! unat v \<and> path' ! unat v = path ! unat v) \<or>
      (costs' ! unat v < costs ! unat v \<and> path' ! unat v = ?cur \<and>
       (\<exists>w. (v, w) \<in> set (zip ?ns ?ws) \<and> costs' ! unat v = ?k + w))"
    if "unat v < ?n" for v :: "'a word"
  proof -
    from ch[OF that] show ?thesis
    proof
      assume "costs' ! unat v = costs ! unat v \<and> path' ! unat v = path ! unat v"
      then show ?thesis by simp
    next
      assume a: "costs' ! unat v < costs ! unat v \<and> path' ! unat v = ?cur \<and>
         (\<exists>n w. (n, w) \<in> set (zip ?ns ?ws) \<and> unat n = unat v \<and> costs' ! unat v = ?k + w)"
      then obtain m w where "(m, w) \<in> set (zip ?ns ?ws)" "unat m = unat v"
        "costs' ! unat v = ?k + w"
        by blast
      moreover from this(2) have "m = v" by (simp add: word_unat_eq_iff)
      ultimately show ?thesis using a by blast
    qed
  qed
  note nw = add_no_wrap[OF noov[rule_format]]
  have wz: "w \<in> set ?ws" if "(v, w) \<in> set (zip ?ns ?ws)" for v w
    using that by (rule set_zip_rightD)
  have nz: "v \<in> set ?ns" if "(v, w) \<in> set (zip ?ns ?ws)" for v w
    using that by (rule set_zip_leftD)
  \<comment> \<open>the queue\<close>
  have Q': "dj_queue g costs' pq'"
    unfolding dj_queue_def
  proof (intro allI impI)
    fix k v assume "(k, v) \<in> set pq'"
    from nq[OF this] show "unat v < ?n \<and> costs' ! unat v \<le> k \<and> k \<noteq> T_max"
    proof
      assume "(k, v) \<in> set ?popped"
      with sub have "(k, v) \<in> set pq" by auto
      from Qd[OF this] have v: "unat v < ?n" "costs ! unat v \<le> k" "k \<noteq> T_max" by simp_all
      from le[OF v(1)] v show ?thesis by simp
    next
      assume "v \<in> set ?ns \<and> costs' ! unat v \<le> k \<and> k \<noteq> T_max \<and> costs' ! unat v < costs ! unat v"
      with nsr show ?thesis by simp
    qed
  qed
  have le_fin: "x \<noteq> T_max" if "x \<le> y" "y \<noteq> T_max" for x y :: "'a word"
  proof
    assume "x = T_max"
    with that(1) le_T_max[of y] have "y = T_max" by simp
    with that(2) show False by simp
  qed
  have notV: "\<not> visited ! i" if "\<not> ?V ! i" for i
    using that Vold by blast
  \<comment> \<open>the costs\<close>
  have J1': "costs' ! unat src = 0"
    using le[OF src] J1 by simp
  have J3': "(costs' ! unat v, v) \<in> set pq'"
    if v: "unat v < ?n" "\<not> ?V ! unat v" "costs' ! unat v \<noteq> T_max" for v :: "'a word"
  proof -
    from chw[OF v(1)] show ?thesis
    proof
      assume a: "costs' ! unat v = costs ! unat v \<and> path' ! unat v = path ! unat v"
      with v(3) have "costs ! unat v \<noteq> T_max" by simp
      from J3[OF v(1) notV[OF v(2)] this] have q: "(costs ! unat v, v) \<in> set pq" .
      from v(2) Vcur have "v \<noteq> ?cur" by auto
      then have "(costs ! unat v, v) \<noteq> Min (set pq)" by (metis snd_conv)
      with q have "(costs ! unat v, v) \<in> set ?popped" by simp
      with sub' a show ?thesis by auto
    next
      assume "costs' ! unat v < costs ! unat v \<and> path' ! unat v = ?cur \<and>
        (\<exists>w. (v, w) \<in> set (zip ?ns ?ws) \<and> costs' ! unat v = ?k + w)"
      with pu[OF v(1)] show ?thesis by simp
    qed
  qed
  have upper: "costs' ! unat u \<le> ?k" if u: "unat u < ?n" "?V ! unat u" for u :: "'a word"
    using keep[OF u] vis[rule_format, of u] u lc by simp
  have lower: "?k \<le> costs' ! unat v" if v: "unat v < ?n" "\<not> ?V ! unat v" for v :: "'a word"
  proof -
    from chw[OF v(1)] show ?thesis
    proof
      assume "costs' ! unat v = costs ! unat v \<and> path' ! unat v = path ! unat v"
      with m3[OF v(1) notV[OF v(2)]] show ?thesis by simp
    next
      assume "costs' ! unat v < costs ! unat v \<and> path' ! unat v = ?cur \<and>
        (\<exists>w. (v, w) \<in> set (zip ?ns ?ws) \<and> costs' ! unat v = ?k + w)"
      then obtain w where "(v, w) \<in> set (zip ?ns ?ws)" "costs' ! unat v = ?k + w" by blast
      with nw(3)[OF wz] show ?thesis by simp
    qed
  qed
  have J4': "costs' ! unat u \<le> costs' ! unat v"
    if "unat u < ?n" "unat v < ?n" "?V ! unat u" "\<not> ?V ! unat v" for u v :: "'a word"
    using upper[OF that(1,3)] lower[OF that(2,4)] by (rule order_trans)
  have J6': "costs' ! unat v \<noteq> T_max" if v: "unat v < ?n" "?V ! unat v" for v :: "'a word"
    using upper[OF v] kfin by (rule le_fin)
  have J8': "\<not> ?V ! unat dst" if "unat dst < ?n"
  proof -
    from nd have "unat ?cur \<noteq> unat dst" by (simp add: word_unat_eq_iff)
    with J8[OF that] show ?thesis by simp
  qed
  have DC': "dj_costs g src dst ?V costs' pq'"
    unfolding dj_costs_def using J1' J3' J4' J6' J8' by blast
  \<comment> \<open>the edges out of visited nodes\<close>
  have DE': "dj_edges g ?V costs'"
    unfolding dj_edges_def
  proof (intro allI impI)
    fix u v w assume u: "unat u < ?n" "?V ! unat u" and e: "has_wedge g u v w"
    have v: "unat v < ?n"
      using has_edge_in_range[OF wf has_wedge_edge[OF e]] by (simp add: node_count_def)
    show "costs' ! unat v \<noteq> T_max \<and> unat (costs' ! unat v) \<le> unat (costs' ! unat u) + unat w"
    proof (cases "visited ! unat u")
      case True
      with DE u(1) e have o: "costs ! unat v \<noteq> T_max"
        "unat (costs ! unat v) \<le> unat (costs ! unat u) + unat w"
        unfolding dj_edges_def by blast+
      from le[OF v] have l: "unat (costs' ! unat v) \<le> unat (costs ! unat v)"
        by (simp add: word_le_nat_alt)
      from le[OF v] o(1) have "costs' ! unat v \<noteq> T_max" by (rule le_fin)
      moreover from keep[OF u] have "costs' ! unat u = costs ! unat u" by simp
      ultimately show ?thesis using l o(2) by simp
    next
      case False
      with Vnew[OF u(2)] have "u = ?cur" by (simp add: word_unat_eq_iff)
      with e have z: "(v, w) \<in> set (zip ?ns ?ws)" by (simp add: zipw)
      note a = nw[OF wz[OF z]]
      from ed[OF z] have "unat (costs' ! unat v) \<le> unat ?k + unat w"
        using a(1) by (simp add: word_le_nat_alt)
      moreover from ed[OF z] a(2) have "costs' ! unat v \<noteq> T_max" by (rule le_fin)
      moreover from keep[OF cur Vcur] c0 have "costs' ! unat ?cur = ?k" by simp
      ultimately show ?thesis using \<open>u = ?cur\<close> by simp
    qed
  qed
  \<comment> \<open>the bound on the costs\<close>
  have DB': "dj_bound g ?V costs'"
    unfolding dj_bound_def
  proof (intro allI impI)
    fix v :: "'a word" assume v: "unat v < ?n" "costs' ! unat v \<noteq> T_max"
    from chw[OF v(1)] show "unat (costs' ! unat v) \<le> visited_weight g ?V"
    proof
      assume a: "costs' ! unat v = costs ! unat v \<and> path' ! unat v = path ! unat v"
      with v DB have "unat (costs ! unat v) \<le> visited_weight g visited"
        by (simp add: dj_bound_def)
      with a vwV show ?thesis by simp
    next
      assume "costs' ! unat v < costs ! unat v \<and> path' ! unat v = ?cur \<and>
        (\<exists>w. (v, w) \<in> set (zip ?ns ?ws) \<and> costs' ! unat v = ?k + w)"
      then obtain w where z: "(v, w) \<in> set (zip ?ns ?ws)" and c: "costs' ! unat v = ?k + w" by blast
      from nw(1)[OF wz[OF z]] wb[OF wz[OF z]] c show ?thesis by simp
    qed
  qed
  \<comment> \<open>the predecessors\<close>
  have DP': "dj_pred g src path' ?V costs'"
    unfolding dj_pred_def
  proof (intro allI impI)
    fix v assume v: "unat v < ?n" "v \<noteq> src" "costs' ! unat v \<noteq> T_max"
    from chw[OF v(1)]
    show "unat (path' ! unat v) < ?n \<and> ?V ! unat (path' ! unat v) \<and>
        (\<exists>w. has_wedge g (path' ! unat v) v w \<and>
           unat (costs' ! unat v) = unat (costs' ! unat (path' ! unat v)) + unat w)"
    proof
      assume a: "costs' ! unat v = costs ! unat v \<and> path' ! unat v = path ! unat v"
      with v DP have o: "unat (path ! unat v) < ?n" "visited ! unat (path ! unat v)"
        "\<exists>w. has_wedge g (path ! unat v) v w \<and>
           unat (costs ! unat v) = unat (costs ! unat (path ! unat v)) + unat w"
        unfolding dj_pred_def by simp_all
      from keep[OF o(1) Vold[OF o(2)]]
      have "costs' ! unat (path ! unat v) = costs ! unat (path ! unat v)" by simp
      with a o Vold[OF o(2)] show ?thesis by simp
    next
      assume a: "costs' ! unat v < costs ! unat v \<and> path' ! unat v = ?cur \<and>
        (\<exists>w. (v, w) \<in> set (zip ?ns ?ws) \<and> costs' ! unat v = ?k + w)"
      then obtain w where z: "(v, w) \<in> set (zip ?ns ?ws)" and c: "costs' ! unat v = ?k + w" by blast
      from z have "has_wedge g ?cur v w" by (simp add: zipw)
      moreover from keep[OF cur Vcur] c0 have "costs' ! unat ?cur = ?k" by simp
      moreover note nw(1)[OF wz[OF z]]
      ultimately have "has_wedge g ?cur v w \<and>
          unat (costs' ! unat v) = unat (costs' ! unat ?cur) + unat w"
        using c by simp
      with a cur Vcur show ?thesis by auto
    qed
  qed
  \<comment> \<open>the predecessor chains\<close>
  have CI': "chain_inv g src path' ?V (map snd pq')"
  proof (rule chain_inv_step[OF CI _ lp lv])
    show "?cur \<in> set (map snd pq)" using mem by force
    show "length path' = length path" using lp lp' by simp
    show "\<forall>i<?n. ?V ! i \<longrightarrow> path' ! i = path ! i" using keep by simp
    show "\<forall>v\<in>set (map snd pq').
        (unat v < ?n \<and> path' ! unat v = ?cur \<and> has_edge g ?cur v) \<or>
        (v \<in> set (map snd pq) \<and> path' ! unat v = path ! unat v)"
    proof
      fix v assume "v \<in> set (map snd pq')"
      then obtain k where kv: "(k, v) \<in> set pq'" by auto
      with Q' have v: "unat v < ?n" by (auto simp: dj_queue_def)
      from chw[OF v]
      show "(unat v < ?n \<and> path' ! unat v = ?cur \<and> has_edge g ?cur v) \<or>
        (v \<in> set (map snd pq) \<and> path' ! unat v = path ! unat v)"
      proof
        assume a: "costs' ! unat v = costs ! unat v \<and> path' ! unat v = path ! unat v"
        with nq[OF kv] have "(k, v) \<in> set ?popped" by auto
        with sub have "(k, v) \<in> set pq" by auto
        then have "v \<in> set (map snd pq)" by force
        with a show ?thesis by simp
      next
        assume a: "costs' ! unat v < costs ! unat v \<and> path' ! unat v = ?cur \<and>
          (\<exists>w. (v, w) \<in> set (zip ?ns ?ws) \<and> costs' ! unat v = ?k + w)"
        then obtain w where "(v, w) \<in> set (zip ?ns ?ws)" by blast
        then have "has_wedge g ?cur v w" by (simp add: zipw)
        then have "has_edge g ?cur v" by (rule has_wedge_edge)
        with a v show ?thesis by simp
      qed
    qed
  qed
  have "dijkstra_inv g src dst path' ?V costs' pq'"
    unfolding dijkstra_inv_def using src lp' lv lc' Q' DC' DE' DB' DP' CI' by simp
  with rl show ?thesis by blast
qed

lemma dijkstra_loop_correct:
  fixes g :: "'a::len word Grafo"
  assumes wf: "wf_grafo g" and tw: "total_weight g < 2 ^ LENGTH('a) - 1"
    and src: "unat src < node_count g"
  shows "\<exists>p c visited' pq'.
     dijkstra_loop g dst (replicate (node_count g) 0) (replicate (node_count g) False)
       ((replicate (node_count g) T_max)[unat src := 0]) [(0, src)] = Some (Inr (p, c)) \<and>
     dijkstra_inv g src dst p visited' c pq' \<and> (pq' = [] \<or> snd (Min (set pq')) = dst)"
proof (rule dijkstra_loop_total[where I = "dijkstra_inv g src dst"])
  show "dijkstra_inv g src dst (replicate (node_count g) 0) (replicate (node_count g) False)
     ((replicate (node_count g) T_max)[unat src := 0]) [(0, src)]"
    using src by (rule dijkstra_inv_init)
next
  fix path visited costs and pq :: "('a word \<times> 'a word) list"
  assume I: "dijkstra_inv g src dst path visited costs pq" and ne: "pq \<noteq> []"
  from I have Q: "dj_queue g costs pq" by (simp add: dijkstra_inv_def)
  from Q[unfolded dj_queue_def, rule_format, OF Min_in_pq[OF ne]]
  have "unat (snd (Min (set pq))) < node_count g" by simp
  with I show "unat (snd (Min (set pq))) < length visited \<and>
     unat (snd (Min (set pq))) < length costs \<and>
     unat (snd (Min (set pq))) < length (adjacency_list g) \<and>
     unat (snd (Min (set pq))) < length (weights g)"
    using wf_grafo_length[OF wf] by (simp add: dijkstra_inv_def node_count_def)
next
  fix path visited costs and pq :: "('a word \<times> 'a word) list"
  assume "dijkstra_inv g src dst path visited costs pq" "pq \<noteq> []"
    "visited ! unat (snd (Min (set pq)))"
  then show "dijkstra_inv g src dst path visited costs (remove1 (Min (set pq)) pq)"
    by (rule dijkstra_inv_skip)
next
  fix path visited costs and pq :: "('a word \<times> 'a word) list"
  assume "dijkstra_inv g src dst path visited costs pq" "pq \<noteq> []"
    "\<not> visited ! unat (snd (Min (set pq)))"
    "fst (Min (set pq)) \<noteq> costs ! unat (snd (Min (set pq)))"
  with popped_cost[of g src dst path visited costs pq]
  show "dijkstra_inv g src dst path (visited[unat (snd (Min (set pq))) := True]) costs
      (remove1 (Min (set pq)) pq)"
    by simp
next
  fix path visited costs and pq :: "('a word \<times> 'a word) list"
  assume "dijkstra_inv g src dst path visited costs pq" "pq \<noteq> []"
    "snd (Min (set pq)) \<noteq> dst" "\<not> visited ! unat (snd (Min (set pq)))"
  with wf tw show "\<exists>costs' pq' path'.
     relax (snd (Min (set pq))) (adjacency_list g ! unat (snd (Min (set pq))))
       (weights g ! unat (snd (Min (set pq)))) costs (remove1 (Min (set pq)) pq) path
       = Inr (costs', pq', path') \<and>
     dijkstra_inv g src dst path' (visited[unat (snd (Min (set pq))) := True]) costs' pq'"
    by (rule dijkstra_inv_visit)
qed

text \<open>
  A walk that starts at a visited node ends at a visited node whose cost is not above the
  cost of the start plus the cost of the walk, or there is a node that is not visited with
  such a cost.
\<close>

lemma walk_lower_bound:
  fixes g :: "'a::len word Grafo"
  shows "wf_grafo g \<Longrightarrow> dj_edges g visited costs \<Longrightarrow> is_walk g u es \<Longrightarrow>
     unat u < node_count g \<Longrightarrow> visited ! unat u \<Longrightarrow>
     (visited ! unat (last (u # map fst es)) \<and>
        unat (costs ! unat (last (u # map fst es))) \<le> unat (costs ! unat u) + walk_cost es) \<or>
     (\<exists>y :: 'a word. unat y < node_count g \<and> \<not> visited ! unat y \<and>
        unat (costs ! unat y) \<le> unat (costs ! unat u) + walk_cost es)"
proof (induction g u es rule: is_walk.induct)
  case (1 g u)
  then show ?case by (simp add: walk_cost_def)
next
  case (2 g u v w es)
  note wf = "2.prems"(1) and DE = "2.prems"(2)
  from "2.prems"(3) have e: "has_wedge g u v w" and wk: "is_walk g v es" by simp_all
  have v: "unat v < node_count g"
    using has_edge_in_range[OF wf has_wedge_edge[OF e]] by (simp add: node_count_def)
  from DE "2.prems"(4,5) e
  have c: "unat (costs ! unat v) \<le> unat (costs ! unat u) + unat w"
    unfolding dj_edges_def by blast
  show ?case
  proof (cases "visited ! unat v")
    case True
    from "2.IH"[OF wf DE wk v True] c show ?thesis
      by (auto simp: walk_cost_Cons)
  next
    case False
    with v c have "unat v < node_count g \<and> \<not> visited ! unat v \<and>
        unat (costs ! unat v) \<le> unat (costs ! unat u) + walk_cost ((v, w) # es)"
      by (simp add: walk_cost_Cons)
    then show ?thesis by blast
  qed
qed

text \<open>When \<open>dst\<close> is taken from the queue its cost is not above the cost of any walk to it.\<close>

lemma exit_optimal:
  fixes g :: "'a::len word Grafo"
  assumes wf: "wf_grafo g" and I: "dijkstra_inv g src dst path visited costs pq"
    and ne: "pq \<noteq> []" and ex: "snd (Min (set pq)) = dst"
    and wk: "walk_between g src dst es"
  shows "unat (costs ! unat dst) \<le> walk_cost es"
proof -
  let ?n = "node_count g" and ?k = "fst (Min (set pq))"
  from I have src: "unat src < ?n" and Q: "dj_queue g costs pq"
    and DC: "dj_costs g src dst visited costs pq" and DE: "dj_edges g visited costs"
    by (simp_all add: dijkstra_inv_def)
  from DC have J1: "costs ! unat src = 0"
    and J3o: "\<forall>v :: 'a word. unat v < ?n \<longrightarrow> \<not> visited ! unat v \<longrightarrow> costs ! unat v \<noteq> T_max \<longrightarrow>
        (costs ! unat v, v) \<in> set pq"
    and J8o: "unat dst < ?n \<longrightarrow> \<not> visited ! unat dst"
    by (simp_all add: dj_costs_def)
  from Min_in_pq[OF ne] ex have mem: "(?k, dst) \<in> set pq" by simp
  from Q[unfolded dj_queue_def, rule_format, OF mem]
  have dst: "unat dst < ?n" and dk: "costs ! unat dst \<le> ?k" by simp_all
  from J8o dst have nvd: "\<not> visited ! unat dst" by simp
  from wk have w: "is_walk g src es" and l: "last (src # map fst es) = dst"
    by (simp_all add: walk_between_def)
  have "\<exists>y :: 'a word. unat y < ?n \<and> \<not> visited ! unat y \<and> unat (costs ! unat y) \<le> walk_cost es"
  proof (cases "visited ! unat src")
    case True
    from walk_lower_bound[OF wf DE w src True] l nvd J1 show ?thesis by auto
  next
    case False
    with src J1 have "unat src < ?n \<and> \<not> visited ! unat src \<and>
        unat (costs ! unat src) \<le> walk_cost es"
      by simp
    then show ?thesis by blast
  qed
  then obtain y :: "'a word" where
    y: "unat y < ?n" "\<not> visited ! unat y" "unat (costs ! unat y) \<le> walk_cost es"
    by blast
  have "costs ! unat dst \<le> costs ! unat y"
  proof (cases "costs ! unat y = T_max")
    case True
    then show ?thesis by (simp add: le_T_max)
  next
    case False
    with J3o y have "(costs ! unat y, y) \<in> set pq" by simp
    from pq_min[OF this] dk show ?thesis by simp
  qed
  then have "unat (costs ! unat dst) \<le> unat (costs ! unat y)" by (simp add: word_le_nat_alt)
  with y(3) show ?thesis by simp
qed

lemma pred_chain_last: "pred_chain g path src v xs \<Longrightarrow> xs \<noteq> [] \<and> last xs = v"
  by (induction rule: pred_chain.induct) simp_all

text \<open>The cost of a node is the cost of the walk along its predecessor chain.\<close>

lemma chain_cost:
  fixes g :: "'a::len word Grafo"
  assumes "pred_chain g path src v xs"
    and "dj_pred g src path visited costs" and "costs ! unat src = 0"
    and "\<forall>x\<in>set xs. unat x < node_count g \<and> costs ! unat x \<noteq> T_max"
  shows "\<exists>es. is_walk g src es \<and> src # map fst es = xs \<and> walk_cost es = unat (costs ! unat v)"
  using assms
proof (induction rule: pred_chain.induct)
  case chain_src
  have "is_walk g src [] \<and> src # map fst [] = [src] \<and> walk_cost [] = unat (costs ! unat src)"
    using chain_src by (simp add: walk_cost_def)
  then show ?case by blast
next
  case (chain_step v xs)
  from chain_step.IH chain_step.prems obtain es where
    es: "is_walk g src es" "src # map fst es = xs" "walk_cost es = unat (costs ! unat (path ! unat v))"
    by auto
  from chain_step.prems(3) have v: "unat v < node_count g" "costs ! unat v \<noteq> T_max" by simp_all
  with chain_step.prems(1) chain_step.hyps(1) obtain w where
    w: "has_wedge g (path ! unat v) v w"
    "unat (costs ! unat v) = unat (costs ! unat (path ! unat v)) + unat w"
    unfolding dj_pred_def by blast
  from pred_chain_last[OF chain_step.hyps(4)] es(2)
  have "last (src # map fst es) = path ! unat v" by simp
  with es(1) w(1) have "is_walk g src (es @ [(v, w)])" by (simp add: is_walk_snoc)
  moreover have "src # map fst (es @ [(v, w)]) = xs @ [v]" using es(2) by simp
  moreover have "walk_cost (es @ [(v, w)]) = unat (costs ! unat v)"
    using es(3) w(2) by (simp add: walk_cost_snoc)
  ultimately show ?case by blast
qed

text \<open>
  Dijkstra on a graph whose stored weights sum up to less than the maximum of \<open>T\<close>: for a
  destination that is reachable it returns a path of the graph from \<open>src\<close> to \<open>dst\<close>, the
  cost of a walk along this path, and no walk from \<open>src\<close> to \<open>dst\<close> costs less.
\<close>

lemma dijkstra_correct:
  fixes g :: "'a::len word Grafo"
  assumes wf: "wf_grafo g" and src: "unat src < node_count g" and r: "reachable g src dst"
    and tw: "total_weight g < 2 ^ LENGTH('a) - 1"
  shows "\<exists>c p es. dijkstra g src dst = Some (Inr (c, p)) \<and> path_between g src dst p \<and>
     is_walk g src es \<and> src # map fst es = p \<and> walk_cost es = unat c \<and>
     (\<forall>es'. walk_between g src dst es' \<longrightarrow> unat c \<le> walk_cost es')"
proof -
  let ?n = "node_count g"
  from dijkstra_loop_correct[OF wf tw src, of dst] obtain p c visited' pq' where
    loop: "dijkstra_loop g dst (replicate ?n 0) (replicate ?n False)
       ((replicate ?n T_max)[unat src := 0]) [(0, src)] = Some (Inr (p, c))"
    and I: "dijkstra_inv g src dst p visited' c pq'"
    and ex: "pq' = [] \<or> snd (Min (set pq')) = dst"
    by blast
  from I have lp: "length p = ?n" and lv: "length visited' = ?n" and lc: "length c = ?n"
    and Q: "dj_queue g c pq'" and DC: "dj_costs g src dst visited' c pq'"
    and DE: "dj_edges g visited' c" and DP: "dj_pred g src p visited' c"
    and CI: "chain_inv g src p visited' (map snd pq')"
    by (simp_all add: dijkstra_inv_def)
  from DC have J1: "c ! unat src = 0"
    and J3o: "\<forall>v :: 'a word. unat v < ?n \<longrightarrow> \<not> visited' ! unat v \<longrightarrow> c ! unat v \<noteq> T_max \<longrightarrow>
        (c ! unat v, v) \<in> set pq'"
    and J6o: "\<forall>v :: 'a word. unat v < ?n \<longrightarrow> visited' ! unat v \<longrightarrow> c ! unat v \<noteq> T_max"
    and J8o: "unat dst < ?n \<longrightarrow> \<not> visited' ! unat dst"
    by (simp_all add: dj_costs_def)
  have dst: "unat dst < ?n"
    using reachable_in_range[OF wf _ r] src by (simp add: node_count_def)
  have ne: "pq' \<noteq> []"
  proof
    assume e: "pq' = []"
    let ?S = "{v. unat v < ?n \<and> visited' ! unat v}"
    have q: "visited' ! unat v" if "unat v < ?n" "c ! unat v \<noteq> T_max" for v :: "'a word"
      using J3o that e by auto
    from q[OF src] J1 T_max_neq_0[where 'a = 'a] src have "src \<in> ?S" by simp
    moreover have "\<forall>u v. u \<in> ?S \<longrightarrow> has_edge g u v \<longrightarrow> v \<in> ?S"
    proof (intro allI impI)
      fix u v assume u: "u \<in> ?S" and e: "has_edge g u v"
      from has_edge_wedge[OF wf e] obtain w where "has_wedge g u v w" by blast
      with DE u have "c ! unat v \<noteq> T_max" unfolding dj_edges_def by blast
      moreover have "unat v < ?n" using has_edge_in_range[OF wf e] by (simp add: node_count_def)
      ultimately show "v \<in> ?S" using q by simp
    qed
    ultimately have "dst \<in> ?S" using reachable_closed[OF r] by blast
    with J8o dst show False by simp
  qed
  with ex have exd: "snd (Min (set pq')) = dst" by simp
  from Min_in_pq[OF ne] exd have mem: "(fst (Min (set pq')), dst) \<in> set pq'" by simp
  from Q[unfolded dj_queue_def, rule_format, OF mem]
  have dk: "c ! unat dst \<le> fst (Min (set pq'))" and kf: "fst (Min (set pq')) \<noteq> T_max"
    by simp_all
  have dfin: "c ! unat dst \<noteq> T_max"
  proof
    assume "c ! unat dst = T_max"
    with dk have "T_max \<le> fst (Min (set pq'))" by simp
    with le_T_max[of "fst (Min (set pq'))"] have "fst (Min (set pq')) = T_max" by simp
    with kf show False by simp
  qed
  from mem have "dst \<in> set (map snd pq')" by force
  with CI have d: "dst = src \<or> (unat (p ! unat dst) < ?n \<and>
      visited' ! unat (p ! unat dst) \<and> has_edge g (p ! unat dst) dst)"
    unfolding chain_inv_def by blast
  have "\<exists>xs. pred_chain g p src dst xs \<and> (\<forall>x\<in>set xs. unat x < ?n \<and> c ! unat x \<noteq> T_max)"
  proof (cases "dst = src")
    case True
    have "pred_chain g p src dst [src]" using True pred_chain.chain_src[of g p src] by simp
    moreover have "\<forall>x\<in>set [src]. unat x < ?n \<and> c ! unat x \<noteq> T_max"
      using src J1 T_max_neq_0[where 'a = 'a] by simp
    ultimately show ?thesis by blast
  next
    case False
    with d CI obtain xs where xs: "pred_chain g p src (p ! unat dst) xs"
      "\<forall>x\<in>set xs. unat x < ?n \<and> visited' ! unat x"
      unfolding chain_inv_def by blast
    from False d dst lp xs(1) have "pred_chain g p src dst (xs @ [dst])"
      using pred_chain.chain_step[of dst src p g xs] by simp
    moreover have "\<forall>x\<in>set (xs @ [dst]). unat x < ?n \<and> c ! unat x \<noteq> T_max"
      using xs(2) J6o dst dfin by auto
    ultimately show ?thesis by blast
  qed
  then obtain xs where xs: "pred_chain g p src dst xs"
    and fin: "\<forall>x\<in>set xs. unat x < ?n \<and> c ! unat x \<noteq> T_max"
    by blast
  have res: "dijkstra g src dst = Some (Inr (c ! unat dst, xs))"
    using loop pred_chain_reconstruct[OF xs, of "[]"] src dst lc
    by (simp add: dijkstra_def node_count_def)
  from chain_cost[OF xs DP J1 fin] obtain es where
    es: "is_walk g src es" "src # map fst es = xs" "walk_cost es = unat (c ! unat dst)"
    by blast
  have "\<forall>es'. walk_between g src dst es' \<longrightarrow> unat (c ! unat dst) \<le> walk_cost es'"
    using exit_optimal[OF wf I ne exd] by blast
  with res pred_chain_path_between[OF xs] es show ?thesis by blast
qed

section \<open>The paths returned and the cost of Dijkstra\<close>

text \<open>
  Two graphs on which a sum of costs wraps around: \<open>wrap3\<close> has the edges 0-1:1,
  1-2:\<open>2 ^ 64 - 1\<close> and 0-2:5, and \<open>wrap4\<close> the edges 0-1:2, 1-2:\<open>2 ^ 63 - 1\<close> and 2-3:1.
\<close>

definition wrap3_edges :: "(64 word \<times> 64 word \<times> 64 word) list" where
  "wrap3_edges = [(0, 1, 1), (1, 2, 18446744073709551615), (0, 2, 5)]"

definition wrap3 :: "64 word Grafo" where
  "wrap3 = \<lparr>adjacency_list = [[1, 2], [0, 2], [1, 0]],
             weights = [[1, 5], [1, 18446744073709551615], [18446744073709551615, 5]]\<rparr>"

definition wrap4_edges :: "(64 word \<times> 64 word \<times> 64 word) list" where
  "wrap4_edges = [(0, 1, 2), (1, 2, 9223372036854775807), (2, 3, 1)]"

definition wrap4 :: "64 word Grafo" where
  "wrap4 = \<lparr>adjacency_list = [[1], [0, 2], [1, 3], [2]],
             weights = [[2], [2, 9223372036854775807], [9223372036854775807, 1], [1]]\<rparr>"

lemma reachable_main_0_3: "reachable main_grafo 0 3"
proof -
  have "path_between main_grafo 0 3 [0, 1, 3]" by code_simp
  then show ?thesis unfolding reachable_def by blast
qed

lemma total_weight_main: "total_weight main_grafo < 2 ^ LENGTH(64) - 1"
  by (simp add: total_weight_def main_grafo_def)

text \<open>
  C1, as the code has it. On a graph built by the constructor and \<^verbatim>\<open>add_edge\<close> whose stored
  weights sum up to less than the maximum of \<open>T\<close> (so that no sum of costs wraps around),
  for a node id \<open>src\<close> of the graph and \<open>dst\<close> reachable from \<open>src\<close>, \<^verbatim>\<open>dijkstra(src, dst)\<close>
  returns a cost and a path to \<open>dst\<close> such that the cost is the sum of the weights of edges
  along the path, and no walk from \<open>src\<close> to \<open>dst\<close> has a lower sum of weights.
\<close>

theorem dijkstra_shortest:
  fixes g :: "'a::len word Grafo"
  assumes "wf_grafo g" and "unat src < node_count g" and "reachable g src dst"
    and "total_weight g < 2 ^ LENGTH('a) - 1"
  shows "\<exists>c p es. dijkstra g src dst = Some (Inr (c, p)) \<and>
     is_walk g src es \<and> src # map fst es = p \<and> last p = dst \<and> walk_cost es = unat c \<and>
     (\<forall>es'. walk_between g src dst es' \<longrightarrow> unat c \<le> walk_cost es')"
proof -
  from dijkstra_correct[OF assms] obtain c p es where
    *: "dijkstra g src dst = Some (Inr (c, p))" "path_between g src dst p"
    "is_walk g src es" "src # map fst es = p" "walk_cost es = unat c"
    "\<forall>es'. walk_between g src dst es' \<longrightarrow> unat c \<le> walk_cost es'"
    by blast
  from *(2) have "last p = dst" by (simp add: path_between_def)
  with * show ?thesis by blast
qed

theorem dijkstra_shortest_witness:
  "wf_grafo main_grafo \<and> unat (0 :: 64 word) < node_count main_grafo \<and>
   reachable main_grafo 0 3 \<and> total_weight main_grafo < 2 ^ LENGTH(64) - 1 \<and>
   dijkstra main_grafo 0 3 = Some (Inr (26, [0, 5, 2, 3])) \<and>
   walk_between main_grafo 0 3 [(1, 7), (3, 20)] \<and>
   unat (26 :: 64 word) \<le> walk_cost [(1 :: 64 word, 7 :: 64 word), (3, 20)]"
proof -
  have 1: "wf_grafo main_grafo" by (rule wf_main_grafo)
  have 2: "unat (0 :: 64 word) < node_count main_grafo" by code_simp
  have 3: "reachable main_grafo 0 3" by (rule reachable_main_0_3)
  have 4: "total_weight main_grafo < 2 ^ LENGTH(64) - 1" by (rule total_weight_main)
  have 5: "dijkstra main_grafo 0 3 = Some (Inr (26, [0, 5, 2, 3]))" by code_simp
  have 6: "walk_between main_grafo 0 3 [(1, 7), (3, 20)]" by code_simp
  from dijkstra_shortest[OF 1 2 3 4] 5
  have "\<forall>es'. walk_between main_grafo 0 3 es' \<longrightarrow> unat (26 :: 64 word) \<le> walk_cost es'"
    by auto
  with 6 have 7: "unat (26 :: 64 word) \<le> walk_cost [(1 :: 64 word, 7 :: 64 word), (3, 20)]"
    by blast
  show ?thesis by (intro conjI) (fact 1 2 3 4 5 6 7)+
qed

text \<open>
  C1 as stated fails on \<open>wrap3\<close>: \<^verbatim>\<open>dijkstra(0, 2)\<close> returns the cost 0 and the path 0, 1,
  2, because \<open>1 + (2 ^ 64 - 1)\<close> wraps around to 0. The walk along this path costs \<open>2 ^ 64\<close>,
  not 0, and the edge from 0 to 2 alone costs 5.
\<close>

theorem dijkstra_wraps_around:
  "add_edges (Grafo 3) wrap3_edges = Inr wrap3 \<and>
   dijkstra wrap3 0 2 = Some (Inr (0, [0, 1, 2])) \<and>
   walk_between wrap3 0 2 [(1, 1), (2, 18446744073709551615)] \<and>
   walk_cost [(1 :: 64 word, 1 :: 64 word), (2, 18446744073709551615)] = 18446744073709551616 \<and>
   walk_between wrap3 0 2 [(2, 5)] \<and>
   walk_cost [(2 :: 64 word, 5 :: 64 word)] = 5"
proof -
  have 1: "add_edges (Grafo 3) wrap3_edges = Inr wrap3" by code_simp
  have 2: "dijkstra wrap3 0 2 = Some (Inr (0, [0, 1, 2]))" by code_simp
  have 3: "walk_between wrap3 0 2 [(1, 1), (2, 18446744073709551615)]" by code_simp
  have 4: "walk_cost [(1 :: 64 word, 1 :: 64 word), (2, 18446744073709551615)] = 18446744073709551616"
    by (simp add: walk_cost_def)
  have 5: "walk_between wrap3 0 2 [(2, 5)]" by code_simp
  have 6: "walk_cost [(2 :: 64 word, 5 :: 64 word)] = 5" by (simp add: walk_cost_def)
  show ?thesis by (intro conjI) (fact 1 2 3 4 5 6)+
qed

text \<open>
  C3, as the code has it. On a graph built by the constructor and \<^verbatim>\<open>add_edge\<close>, for a node
  id \<open>src\<close> of the graph and \<open>dst\<close> reachable from \<open>src\<close>, \<^verbatim>\<open>DFS\<close> and \<^verbatim>\<open>BFS\<close> return a
  sequence that starts with \<open>src\<close>, ends with \<open>dst\<close> and in which every two consecutive
  nodes are joined by an edge of the graph; so does \<^verbatim>\<open>dijkstra\<close> when the weights stored
  in the graph sum up to less than the maximum of \<open>T\<close>.
\<close>

theorem returned_paths_valid:
  fixes g :: "'a::len word Grafo"
  assumes "wf_grafo g" and "unat src < node_count g" and "reachable g src dst"
  shows "(\<exists>p. DFS g src dst = Some (Inr p) \<and> path_between g src dst p) \<and>
         (\<exists>p. BFS g src dst = Some (Inr p) \<and> path_between g src dst p) \<and>
         (total_weight g < 2 ^ LENGTH('a) - 1 \<longrightarrow>
            (\<exists>c p. dijkstra g src dst = Some (Inr (c, p)) \<and> path_between g src dst p))"
proof -
  have "\<exists>c p. dijkstra g src dst = Some (Inr (c, p)) \<and> path_between g src dst p"
    if "total_weight g < 2 ^ LENGTH('a) - 1"
    using dijkstra_correct[OF assms that] by blast
  then show ?thesis
    using search_reachable[of stack_push g src dst, OF stack_push_set assms]
      search_reachable[of queue_push g src dst, OF queue_push_set assms]
    by (simp add: DFS_def BFS_def)
qed

theorem returned_paths_valid_witness:
  "wf_grafo main_grafo \<and> unat (0 :: 64 word) < node_count main_grafo \<and>
   reachable main_grafo 0 3 \<and> total_weight main_grafo < 2 ^ LENGTH(64) - 1 \<and>
   DFS main_grafo 0 3 = Some (Inr [0, 5, 4, 2, 3]) \<and> path_between main_grafo 0 3 [0, 5, 4, 2, 3] \<and>
   BFS main_grafo 0 3 = Some (Inr [0, 5, 2, 3]) \<and> path_between main_grafo 0 3 [0, 5, 2, 3] \<and>
   dijkstra main_grafo 0 3 = Some (Inr (26, [0, 5, 2, 3]))"
proof -
  have 1: "wf_grafo main_grafo" by (rule wf_main_grafo)
  have 2: "unat (0 :: 64 word) < node_count main_grafo" by code_simp
  have 3: "reachable main_grafo 0 3" by (rule reachable_main_0_3)
  have 4: "total_weight main_grafo < 2 ^ LENGTH(64) - 1" by (rule total_weight_main)
  have 5: "DFS main_grafo 0 3 = Some (Inr [0, 5, 4, 2, 3])" by code_simp
  have 6: "BFS main_grafo 0 3 = Some (Inr [0, 5, 2, 3])" by code_simp
  have 7: "dijkstra main_grafo 0 3 = Some (Inr (26, [0, 5, 2, 3]))" by code_simp
  note t = returned_paths_valid[OF 1 2 3]
  from t 5 have 8: "path_between main_grafo 0 3 [0, 5, 4, 2, 3]" by auto
  from t 6 have 9: "path_between main_grafo 0 3 [0, 5, 2, 3]" by auto
  show ?thesis by (intro conjI) (fact 1 2 3 4 5 6 7 8 9)+
qed

text \<open>
  The predecessors 0, 2, 1, 2 with \<open>src = 0\<close>: nodes 1 and 2 are the predecessors of each
  other, and the reconstruction from one of them does not return.
\<close>

lemma reconstruct_cycle:
  assumes "node = 1 \<or> node = 2"
  shows "reconstruct [0, 2, 1, 2 :: 64 word] 0 node acc = None"
proof (cases "reconstruct [0, 2, 1, 2 :: 64 word] 0 node acc")
  case None
  then show ?thesis .
next
  case (Some r)
  have "\<not> (path = [0, 2, 1, 2 :: 64 word] \<and> src = 0 \<and> (node = 1 \<or> node = 2))"
    if "reconstruct path src node acc = Some r" for path src node acc r
  proof (rule reconstruct.raw_induct[OF _ that, where P = "\<lambda>path src node acc r.
      \<not> (path = [0, 2, 1, 2 :: 64 word] \<and> src = 0 \<and> (node = 1 \<or> node = 2))"])
    fix f path src and node :: "64 word" and acc r
    assume ih: "\<And>path src node acc r. f path src node acc = Some r \<Longrightarrow>
        \<not> (path = [0, 2, 1, 2 :: 64 word] \<and> src = 0 \<and> (node = 1 \<or> node = 2))"
      and eq: "(if node \<noteq> src then
          if unat node < length path then f path src (path ! unat node) (node # acc)
          else Some (Inl OutOfBounds)
        else Some (Inr (src # acc))) = Some r"
    show "\<not> (path = [0, 2, 1, 2 :: 64 word] \<and> src = 0 \<and> (node = 1 \<or> node = 2))"
    proof
      assume a: "path = [0, 2, 1, 2 :: 64 word] \<and> src = 0 \<and> (node = 1 \<or> node = 2)"
      then have "node = 1 \<or> node = 2" by simp
      then show False
      proof
        assume n: "node = 1"
        with a eq have "f path src 2 (node # acc) = Some r" by simp
        from ih[OF this] a show False by simp
      next
        assume n: "node = 2"
        with a eq have "f path src 1 (node # acc) = Some r" by simp
        from ih[OF this] a show False by simp
      qed
    qed
  qed
  from this[OF Some] assms show ?thesis by simp
qed

text \<open>
  C3 as stated fails on \<open>wrap4\<close>: node 3 is reachable from node 0, and \<^verbatim>\<open>dijkstra(0, 3)\<close>
  does not return. The cost of node 2 is \<open>2 ^ 63 + 1\<close>; from node 2 the cost
  \<open>(2 ^ 63 + 1) + (2 ^ 63 - 1)\<close> of node 1 wraps around to 0, below its cost 2, and node 2
  becomes the predecessor of node 1, which is the predecessor of node 2.
\<close>

theorem dijkstra_wrap_no_return:
  "add_edges (Grafo 4) wrap4_edges = Inr wrap4 \<and>
   path_between wrap4 0 3 [0, 1, 2, 3] \<and>
   dijkstra_loop wrap4 3 (replicate 4 0) (replicate 4 False)
       ((replicate 4 T_max)[unat (0 :: 64 word) := 0]) [(0, 0)]
     = Some (Inr ([0, 2, 1, 2], [0, 0, 9223372036854775809, 9223372036854775810])) \<and>
   dijkstra wrap4 0 3 = None"
proof -
  have 1: "add_edges (Grafo 4) wrap4_edges = Inr wrap4" by code_simp
  have 2: "path_between wrap4 0 3 [0, 1, 2, 3]" by code_simp
  have 3: "dijkstra_loop wrap4 3 (replicate 4 0) (replicate 4 False)
       ((replicate 4 T_max)[unat (0 :: 64 word) := 0]) [(0, 0)]
     = Some (Inr ([0, 2, 1, 2], [0, 0, 9223372036854775809, 9223372036854775810]))"
    by code_simp
  have "reconstruct [0, 2, 1, 2 :: 64 word] 0 3 [] = reconstruct [0, 2, 1, 2 :: 64 word] 0 2 [3]"
    by (subst reconstruct.simps) simp
  then have "reconstruct [0, 2, 1, 2 :: 64 word] 0 3 [] = None"
    by (simp add: reconstruct_cycle)
  moreover have "length (adjacency_list wrap4) = 4" by (simp add: wrap4_def)
  ultimately have 4: "dijkstra wrap4 0 3 = None"
    using 3 by (simp add: dijkstra_def)
  show ?thesis by (intro conjI) (fact 1 2 3 4)+
qed

section \<open>Costs narrower than \<^verbatim>\<open>int\<close>\<close>

text \<open>
  The edges 0-1:1, 1-2:\<open>2 ^ w - 1\<close> and 0-2:5 of \<open>wrap3\<close>, with \<open>w\<close> the width of \<open>T\<close>. At
  8 bits the sum \<open>1 + 255\<close> is computed in \<^verbatim>\<open>int\<close> and is not below 5, and
  \<^verbatim>\<open>dijkstra(0, 2)\<close> returns the cost 5 of the edge from 0 to 2. At 32 bits, the width of
  \<^verbatim>\<open>int\<close>, the sum wraps around as it does at 64.
\<close>

definition max_edges :: "('a::len word \<times> 'a word \<times> 'a word) list" where
  "max_edges = [(0, 1, 1), (1, 2, - 1), (0, 2, 5)]"

lemma dijkstra_promoted:
  "add_edges (Grafo 3) (max_edges :: (8 word \<times> 8 word \<times> 8 word) list)
     = Inr \<lparr>adjacency_list = [[1, 2], [0, 2], [1, 0]], weights = [[1, 5], [1, 255], [255, 5]]\<rparr>"
  "dijkstra \<lparr>adjacency_list = [[1, 2], [0, 2], [1, 0]],
             weights = [[1, 5], [1, 255], [255, 5 :: 8 word]]\<rparr> 0 2 = Some (Inr (5, [0, 2]))"
  "dijkstra \<lparr>adjacency_list = [[1, 2], [0, 2], [1, 0]],
             weights = [[1, 5], [1, 4294967295], [4294967295, 5 :: 32 word]]\<rparr> 0 2
     = Some (Inr (0, [0, 1, 2]))"
  by code_simp+

end
